theory Spec2Isabelle
  imports Main "HOL-Library.Word"
begin

section \<open>Memory model\<close>

text \<open>
  \<^verbatim>\<open>DynamicArray<T>\<close> owns raw storage obtained from \<^verbatim>\<open>::operator new\<close> and manages
  the lifetime of the elements in it by hand. The model keeps this explicit:

  \<^item> \<^verbatim>\<open>std::size_t\<close> is a 64-bit word; its arithmetic wraps around.
  \<^item> A \<^verbatim>\<open>T*\<close> is either \<open>nullptr\<close> or a block of the store together with a slot
    offset in that block. The store holds the blocks handed out by \<^verbatim>\<open>::operator new\<close>
    and, as blocks of their own, the backing arrays of initializer lists and the
    temporaries of the caller.
  \<^item> A block is a list of slots; a slot is \<open>None\<close> while it is raw storage and
    \<open>Some v\<close> while an object of value \<open>v\<close> lives in it.
  \<^item> The world holds the store, the next unused block name, and the three fields
    of every container object. A container object is named by a natural number (its
    address), so that \<^verbatim>\<open>this != std::addressof(other)\<close> can be decided.
  \<^item> The world also records \<^verbatim>\<open>sizeof(T)\<close> of the element type and which requests
    \<^verbatim>\<open>::operator new\<close> refuses: \<open>new_fails w k n\<close> says that a request of \<open>n\<close> bytes,
    made when \<open>k\<close> is the next unused block name, throws \<^verbatim>\<open>std::bad_alloc\<close>. No
    operation changes these two.
  \<^item> A member function is a function from the world to a result and the world after
    it. The result is \<open>Inr\<close> of the returned value, or \<open>Inl\<close> of the exception thrown.
    Where the C++ program would have undefined behaviour (an access outside a block,
    to a released block or through \<open>nullptr\<close>, a read or a destruction of a slot in
    which no object lives), the model stops with \<open>undefined_behaviour\<close>.

  \<^verbatim>\<open>::operator new\<close> is asked for a number of bytes. It either throws
  \<^verbatim>\<open>std::bad_alloc\<close> or hands out a block with as many slots as objects of type
  \<^verbatim>\<open>T\<close> fit in that many bytes.

  A parameter of reference type (\<^verbatim>\<open>const T&\<close>, \<^verbatim>\<open>T&&\<close>, \<^verbatim>\<open>Args&&...\<close>) is the pointer to
  the object it is bound to, and that object is read where the source reads it. When the
  argument is a prvalue the caller materialises a temporary object for it.
\<close>

type_synonym size_t = "64 word"

datatype pointer = nullptr | Ptr (block: nat) (offset: nat)

record DynamicArray =
  m_data :: pointer
  m_size :: size_t
  m_capacity :: size_t

record 'a world =
  heap :: "nat \<Rightarrow> 'a option list option"
  next_block :: nat
  objs :: "nat \<Rightarrow> DynamicArray"
  sizeof_T :: size_t
  new_fails :: "nat \<Rightarrow> size_t \<Rightarrow> bool"

datatype error = out_of_range | bad_alloc | undefined_behaviour

type_synonym ('a, 'r) prog = "'a world \<Rightarrow> (error + 'r) \<times> 'a world"

definition return :: "'r \<Rightarrow> ('a, 'r) prog" where
  "return r = (\<lambda>w. (Inr r, w))"

definition throw :: "error \<Rightarrow> ('a, 'r) prog" where
  "throw e = (\<lambda>w. (Inl e, w))"

definition bind :: "('a, 'r) prog \<Rightarrow> ('r \<Rightarrow> ('a, 's) prog) \<Rightarrow> ('a, 's) prog" where
  "bind m f = (\<lambda>w. case m w of (Inl e, w') \<Rightarrow> (Inl e, w') | (Inr r, w') \<Rightarrow> f r w')"

text \<open>Pointer arithmetic \<^verbatim>\<open>p + n\<close> with \<^verbatim>\<open>n\<close> of type \<^verbatim>\<open>std::size_t\<close>.\<close>

definition ptr_add :: "pointer \<Rightarrow> size_t \<Rightarrow> pointer" where
  "ptr_add p n = (case p of nullptr \<Rightarrow> nullptr | Ptr a off \<Rightarrow> Ptr a (off + unat n))"

text \<open>The slot a pointer designates: \<open>None\<close> when it designates no slot of a live block.\<close>

definition slot :: "'a world \<Rightarrow> pointer \<Rightarrow> 'a option option" where
  "slot w p = (case p of
       nullptr \<Rightarrow> None
     | Ptr a off \<Rightarrow> (case heap w a of
           None \<Rightarrow> None
         | Some blk \<Rightarrow> if off < length blk then Some (blk ! off) else None))"

definition put_slot :: "'a world \<Rightarrow> pointer \<Rightarrow> 'a option \<Rightarrow> 'a world" where
  "put_slot w p s = (case p of
       nullptr \<Rightarrow> w
     | Ptr a off \<Rightarrow> (case heap w a of
           None \<Rightarrow> w
         | Some blk \<Rightarrow> w\<lparr>heap := (heap w)(a \<mapsto> blk[off := s])\<rparr>))"

subsection \<open>The free store and the library's object-lifetime functions\<close>

definition operator_new :: "size_t \<Rightarrow> ('a, pointer) prog" where
  "operator_new n = (\<lambda>w.
     if new_fails w (next_block w) n then (Inl bad_alloc, w)
     else (Inr (Ptr (next_block w) 0),
       w\<lparr>heap := (heap w)(next_block w \<mapsto> replicate (unat n div unat (sizeof_T w)) None),
         next_block := Suc (next_block w)\<rparr>))"

definition operator_delete :: "pointer \<Rightarrow> ('a, unit) prog" where
  "operator_delete p = (\<lambda>w. case p of
       nullptr \<Rightarrow> (Inr (), w)
     | Ptr a off \<Rightarrow>
         if off = 0 \<and> heap w a \<noteq> None then (Inr (), w\<lparr>heap := (heap w)(a := None)\<rparr>)
         else (Inl undefined_behaviour, w))"

definition construct_at :: "pointer \<Rightarrow> 'a \<Rightarrow> ('a, pointer) prog" where
  "construct_at p v = (\<lambda>w. case slot w p of
       None \<Rightarrow> (Inl undefined_behaviour, w)
     | Some s \<Rightarrow> (Inr p, put_slot w p (Some v)))"

definition destroy_at :: "pointer \<Rightarrow> ('a, unit) prog" where
  "destroy_at p = (\<lambda>w. case slot w p of
       Some (Some v) \<Rightarrow> (Inr (), put_slot w p None)
     | _ \<Rightarrow> (Inl undefined_behaviour, w))"

text \<open>Reading the object \<^verbatim>\<open>*p\<close>, and assigning to it.\<close>

definition load :: "pointer \<Rightarrow> ('a, 'a) prog" where
  "load p = (\<lambda>w. case slot w p of
       Some (Some v) \<Rightarrow> (Inr v, w)
     | _ \<Rightarrow> (Inl undefined_behaviour, w))"

definition store :: "pointer \<Rightarrow> 'a \<Rightarrow> ('a, unit) prog" where
  "store p v = (\<lambda>w. case slot w p of
       Some (Some u) \<Rightarrow> (Inr (), put_slot w p (Some v))
     | _ \<Rightarrow> (Inl undefined_behaviour, w))"

text \<open>
  \<^verbatim>\<open>std::destroy_n\<close>, \<^verbatim>\<open>std::uninitialized_copy_n\<close>, \<^verbatim>\<open>std::uninitialized_move_n\<close> and
  \<^verbatim>\<open>std::uninitialized_fill_n\<close> walk their range slot by slot. A moved-from object
  stays alive until it is destroyed, so in this model moving an element reads it just
  as copying does.
\<close>

primrec destroy_n :: "pointer \<Rightarrow> nat \<Rightarrow> ('a, unit) prog" where
  "destroy_n p 0 = return ()"
| "destroy_n p (Suc n) = bind (destroy_at p) (\<lambda>_. destroy_n (ptr_add p 1) n)"

primrec uninitialized_copy_n :: "pointer \<Rightarrow> nat \<Rightarrow> pointer \<Rightarrow> ('a, unit) prog" where
  "uninitialized_copy_n src 0 dst = return ()"
| "uninitialized_copy_n src (Suc n) dst =
     bind (load src) (\<lambda>v.
     bind (construct_at dst v) (\<lambda>_.
     uninitialized_copy_n (ptr_add src 1) n (ptr_add dst 1)))"

primrec uninitialized_move_n :: "pointer \<Rightarrow> nat \<Rightarrow> pointer \<Rightarrow> ('a, unit) prog" where
  "uninitialized_move_n src 0 dst = return ()"
| "uninitialized_move_n src (Suc n) dst =
     bind (load src) (\<lambda>v.
     bind (construct_at dst v) (\<lambda>_.
     uninitialized_move_n (ptr_add src 1) n (ptr_add dst 1)))"

text \<open>\<^verbatim>\<open>std::uninitialized_fill_n(first, n, const T& value)\<close> copies \<^verbatim>\<open>value\<close> \<open>n\<close> times.\<close>

primrec uninitialized_fill_n :: "pointer \<Rightarrow> nat \<Rightarrow> pointer \<Rightarrow> ('a, unit) prog" where
  "uninitialized_fill_n dst 0 value = return ()"
| "uninitialized_fill_n dst (Suc n) value =
     bind (load value) (\<lambda>v.
     bind (construct_at dst v) (\<lambda>_. uninitialized_fill_n (ptr_add dst 1) n value))"

text \<open>
  The temporary object a prvalue argument is materialised into: an object of its own,
  outside every block handed out so far.
\<close>

definition temporary :: "'a \<Rightarrow> ('a, pointer) prog" where
  "temporary v = (\<lambda>w. (Inr (Ptr (next_block w) 0),
       w\<lparr>heap := (heap w)(next_block w \<mapsto> [Some v]),
         next_block := Suc (next_block w)\<rparr>))"

section \<open>The container\<close>

subsection \<open>Fields\<close>

definition get_data :: "nat \<Rightarrow> ('a, pointer) prog" where
  "get_data this = (\<lambda>w. (Inr (m_data (objs w this)), w))"

definition get_size :: "nat \<Rightarrow> ('a, size_t) prog" where
  "get_size this = (\<lambda>w. (Inr (m_size (objs w this)), w))"

definition get_capacity :: "nat \<Rightarrow> ('a, size_t) prog" where
  "get_capacity this = (\<lambda>w. (Inr (m_capacity (objs w this)), w))"

definition set_data :: "nat \<Rightarrow> pointer \<Rightarrow> ('a, unit) prog" where
  "set_data this p = (\<lambda>w. (Inr (), w\<lparr>objs := (objs w)(this := (objs w this)\<lparr>m_data := p\<rparr>)\<rparr>))"

definition set_size :: "nat \<Rightarrow> size_t \<Rightarrow> ('a, unit) prog" where
  "set_size this n = (\<lambda>w. (Inr (), w\<lparr>objs := (objs w)(this := (objs w this)\<lparr>m_size := n\<rparr>)\<rparr>))"

definition set_capacity :: "nat \<Rightarrow> size_t \<Rightarrow> ('a, unit) prog" where
  "set_capacity this n =
     (\<lambda>w. (Inr (), w\<lparr>objs := (objs w)(this := (objs w this)\<lparr>m_capacity := n\<rparr>)\<rparr>))"

subsection \<open>Private helpers\<close>

definition checkRange :: "nat \<Rightarrow> size_t \<Rightarrow> bool \<Rightarrow> ('a, unit) prog" where
  "checkRange this index allowEnd =
     bind (get_size this) (\<lambda>sz.
     if index \<ge> sz + (if allowEnd then 1 else 0) then throw out_of_range else return ())"

text \<open>
  \<^verbatim>\<open>allocate\<close> asks for \<^verbatim>\<open>capacity * sizeof(T)\<close> bytes, a product of \<^verbatim>\<open>std::size_t\<close>
  values that wraps around.
\<close>

definition sizeof :: "('a, size_t) prog" where
  "sizeof = (\<lambda>w. (Inr (sizeof_T w), w))"

definition allocate :: "size_t \<Rightarrow> ('a, pointer) prog" where
  "allocate capacity =
     (if capacity = 0 then return nullptr
      else bind sizeof (\<lambda>s. operator_new (capacity * s)))"

definition deallocate :: "pointer \<Rightarrow> ('a, unit) prog" where
  "deallocate ptr = (if ptr \<noteq> nullptr then operator_delete ptr else return ())"

definition replaceStorage :: "nat \<Rightarrow> pointer \<Rightarrow> size_t \<Rightarrow> size_t \<Rightarrow> ('a, unit) prog" where
  "replaceStorage this newData newSize newCapacity =
     bind (get_data this) (\<lambda>d.
     bind (get_size this) (\<lambda>sz.
     bind (destroy_n d (unat sz)) (\<lambda>_.
     bind (deallocate d) (\<lambda>_.
     bind (set_data this newData) (\<lambda>_.
     bind (set_size this newSize) (\<lambda>_.
     set_capacity this newCapacity))))))"

definition tidy :: "nat \<Rightarrow> ('a, unit) prog" where
  "tidy this = replaceStorage this nullptr 0 0"

definition reallocate :: "nat \<Rightarrow> size_t \<Rightarrow> ('a, unit) prog" where
  "reallocate this newCapacity =
     bind (allocate newCapacity) (\<lambda>newData.
     bind (get_size this) (\<lambda>sz.
     bind (get_data this) (\<lambda>d.
     bind (uninitialized_move_n d (unat (min sz newCapacity)) newData) (\<lambda>_.
     replaceStorage this newData (min sz newCapacity) newCapacity))))"

definition ensureCapacity :: "nat \<Rightarrow> size_t \<Rightarrow> ('a, unit) prog" where
  "ensureCapacity this minCapacity =
     bind (get_capacity this) (\<lambda>cap.
     if minCapacity \<le> cap then return ()
     else
       let newCapacity = cap + cap div 2;
           newCapacity = (if cap > - 1 - cap div 2 then - 1 else newCapacity);
           newCapacity = (if newCapacity < minCapacity then minCapacity else newCapacity)
       in reallocate this newCapacity)"


text \<open>
  \<^verbatim>\<open>assign(const T* src, std::size_t count)\<close>: the common body of the copying
  constructors and assignments.
\<close>

definition assign :: "nat \<Rightarrow> pointer \<Rightarrow> size_t \<Rightarrow> ('a, unit) prog" where
  "assign this src count =
     bind (get_capacity this) (\<lambda>cap.
     if count \<le> cap then
       bind (get_data this) (\<lambda>d.
       bind (get_size this) (\<lambda>sz.
       bind (destroy_n d (unat sz)) (\<lambda>_.
       bind (if count > 0 then uninitialized_copy_n src (unat count) d else return ()) (\<lambda>_.
       set_size this count))))
     else
       bind (allocate count) (\<lambda>newData.
       bind (if count > 0 then uninitialized_copy_n src (unat count) newData else return ()) (\<lambda>_.
       replaceStorage this newData count count)))"

text \<open>
  \<^verbatim>\<open>shiftRight\<close> and \<^verbatim>\<open>shiftLeft\<close>: the loop counter is a \<^verbatim>\<open>std::size_t\<close>, and so are
  \<^verbatim>\<open>src\<close> and \<^verbatim>\<open>dest\<close>; their sums wrap around as in the source.
\<close>

function shiftRight_loop :: "nat \<Rightarrow> size_t \<Rightarrow> size_t \<Rightarrow> size_t \<Rightarrow> ('a, unit) prog" where
  "shiftRight_loop this index count i =
     (if i > 0 then
        bind (get_data this) (\<lambda>d.
        bind (load (ptr_add d (index + (i - 1)))) (\<lambda>v.
        bind (construct_at (ptr_add d (index + (i - 1) + count)) v) (\<lambda>_.
        bind (destroy_at (ptr_add d (index + (i - 1)))) (\<lambda>_.
        shiftRight_loop this index count (i - 1)))))
      else return ())"
  by pat_completeness auto
termination
  by (relation "measure (\<lambda>(this, index, count, i). unat i)")
     (simp, simp, unat_arith)

declare shiftRight_loop.simps [simp del]

definition shiftRight :: "nat \<Rightarrow> size_t \<Rightarrow> size_t \<Rightarrow> ('a, unit) prog" where
  "shiftRight this index count =
     bind (get_size this) (\<lambda>sz. shiftRight_loop this index count (sz - index))"

function shiftLeft_loop :: "nat \<Rightarrow> size_t \<Rightarrow> size_t \<Rightarrow> size_t \<Rightarrow> size_t \<Rightarrow> ('a, unit) prog" where
  "shiftLeft_loop this index count moveCount i =
     (if i < moveCount then
        bind (get_data this) (\<lambda>d.
        bind (load (ptr_add d (index + count + i))) (\<lambda>v.
        bind (construct_at (ptr_add d (index + i)) v) (\<lambda>_.
        bind (destroy_at (ptr_add d (index + count + i))) (\<lambda>_.
        shiftLeft_loop this index count moveCount (i + 1)))))
      else return ())"
  by pat_completeness auto
termination
  by (relation "measure (\<lambda>(this, index, count, moveCount, i). unat moveCount - unat i)")
     (simp, simp, unat_arith)

declare shiftLeft_loop.simps [simp del]

definition shiftLeft :: "nat \<Rightarrow> size_t \<Rightarrow> size_t \<Rightarrow> ('a, unit) prog" where
  "shiftLeft this index count =
     bind (get_size this) (\<lambda>sz. shiftLeft_loop this index count (sz - index - count) 0)"


subsection \<open>Construction, destruction and assignment\<close>

text \<open>
  A \<^verbatim>\<open>std::initializer_list<T>\<close> is a pointer to a backing array and a length.
  \<open>braced_init_list\<close> is what the compiler does for a braced list of values: it
  materialises the backing array, whose elements are alive.
\<close>

datatype initializer_list = initializer_list (ilist_begin: pointer) (ilist_size: size_t)

definition braced_init_list :: "'a list \<Rightarrow> ('a, initializer_list) prog" where
  "braced_init_list xs = (\<lambda>w. (Inr (initializer_list (Ptr (next_block w) 0) (of_nat (length xs))),
       w\<lparr>heap := (heap w)(next_block w \<mapsto> map Some xs),
         next_block := Suc (next_block w)\<rparr>))"

definition exchange_data :: "nat \<Rightarrow> pointer \<Rightarrow> ('a, pointer) prog" where
  "exchange_data obj new_value =
     bind (get_data obj) (\<lambda>old_value.
     bind (set_data obj new_value) (\<lambda>_. return old_value))"

definition exchange_size :: "nat \<Rightarrow> size_t \<Rightarrow> ('a, size_t) prog" where
  "exchange_size obj new_value =
     bind (get_size obj) (\<lambda>old_value.
     bind (set_size obj new_value) (\<lambda>_. return old_value))"

definition exchange_capacity :: "nat \<Rightarrow> size_t \<Rightarrow> ('a, size_t) prog" where
  "exchange_capacity obj new_value =
     bind (get_capacity obj) (\<lambda>old_value.
     bind (set_capacity obj new_value) (\<lambda>_. return old_value))"

definition DynamicArray_default :: "nat \<Rightarrow> ('a, unit) prog" where
  "DynamicArray_default this =
     bind (set_data this nullptr) (\<lambda>_.
     bind (set_size this 0) (\<lambda>_.
     set_capacity this 0))"

definition DynamicArray_fill :: "nat \<Rightarrow> size_t \<Rightarrow> pointer \<Rightarrow> ('a, unit) prog" where
  "DynamicArray_fill this count value =
     bind (DynamicArray_default this) (\<lambda>_.
     if count > 0 then
       bind (allocate count) (\<lambda>p.
       bind (set_data this p) (\<lambda>_.
       bind (set_capacity this count) (\<lambda>_.
       bind (get_data this) (\<lambda>d.
       bind (uninitialized_fill_n d (unat count) value) (\<lambda>_.
       set_size this count)))))
     else return ())"

text \<open>
  \<^verbatim>\<open>DynamicArray(count)\<close> delegates with the temporary \<^verbatim>\<open>T{}\<close>, whose value is the
  parameter \<open>T0\<close> here.
\<close>

definition DynamicArray_count :: "nat \<Rightarrow> size_t \<Rightarrow> 'a \<Rightarrow> ('a, unit) prog" where
  "DynamicArray_count this count T0 =
     bind (temporary T0) (\<lambda>value. DynamicArray_fill this count value)"

definition DynamicArray_ilist :: "nat \<Rightarrow> initializer_list \<Rightarrow> ('a, unit) prog" where
  "DynamicArray_ilist this init =
     bind (DynamicArray_default this) (\<lambda>_.
     assign this (ilist_begin init) (ilist_size init))"

definition DynamicArray_copy :: "nat \<Rightarrow> nat \<Rightarrow> ('a, unit) prog" where
  "DynamicArray_copy this other =
     bind (DynamicArray_default this) (\<lambda>_.
     bind (get_data other) (\<lambda>src.
     bind (get_size other) (\<lambda>count.
     assign this src count)))"

definition DynamicArray_move :: "nat \<Rightarrow> nat \<Rightarrow> ('a, unit) prog" where
  "DynamicArray_move this other =
     bind (exchange_data other nullptr) (\<lambda>d.
     bind (set_data this d) (\<lambda>_.
     bind (exchange_size other 0) (\<lambda>n.
     bind (set_size this n) (\<lambda>_.
     bind (exchange_capacity other 0) (\<lambda>c.
     set_capacity this c)))))"

definition destructor :: "nat \<Rightarrow> ('a, unit) prog" where
  "destructor this = tidy this"

definition copy_assign :: "nat \<Rightarrow> nat \<Rightarrow> ('a, unit) prog" where
  "copy_assign this other =
     (if this \<noteq> other then
        bind (get_data other) (\<lambda>src.
        bind (get_size other) (\<lambda>count.
        assign this src count))
      else return ())"

definition move_assign :: "nat \<Rightarrow> nat \<Rightarrow> ('a, unit) prog" where
  "move_assign this other =
     (if this \<noteq> other then
        bind (get_data this) (\<lambda>d.
        bind (get_size this) (\<lambda>sz.
        bind (destroy_n d (unat sz)) (\<lambda>_.
        bind (deallocate d) (\<lambda>_.
        bind (exchange_data other nullptr) (\<lambda>d'.
        bind (set_data this d') (\<lambda>_.
        bind (exchange_size other 0) (\<lambda>n.
        bind (set_size this n) (\<lambda>_.
        bind (exchange_capacity other 0) (\<lambda>c.
        set_capacity this c)))))))))
      else return ())"

definition ilist_assign :: "nat \<Rightarrow> initializer_list \<Rightarrow> ('a, unit) prog" where
  "ilist_assign this ilist = assign this (ilist_begin ilist) (ilist_size ilist)"

subsection \<open>Element access and capacity\<close>

text \<open>\<^verbatim>\<open>operator[]\<close> returns a reference: the pointer to the slot.\<close>

definition subscript :: "nat \<Rightarrow> size_t \<Rightarrow> ('a, pointer) prog" where
  "subscript this index =
     bind (checkRange this index False) (\<lambda>_.
     bind (get_data this) (\<lambda>d.
     return (ptr_add d index)))"

definition Data :: "nat \<Rightarrow> ('a, pointer) prog" where
  "Data this = get_data this"

definition IsEmpty :: "nat \<Rightarrow> ('a, bool) prog" where
  "IsEmpty this = bind (get_size this) (\<lambda>sz. return (sz = 0))"

definition Size :: "nat \<Rightarrow> ('a, size_t) prog" where
  "Size this = get_size this"

definition Capacity :: "nat \<Rightarrow> ('a, size_t) prog" where
  "Capacity this = get_capacity this"

definition Reserve :: "nat \<Rightarrow> size_t \<Rightarrow> ('a, unit) prog" where
  "Reserve this newCapacity =
     bind (get_capacity this) (\<lambda>cap.
     if newCapacity > cap then reallocate this newCapacity else return ())"

definition Shrink :: "nat \<Rightarrow> ('a, unit) prog" where
  "Shrink this =
     bind (get_size this) (\<lambda>sz.
     bind (get_capacity this) (\<lambda>cap.
     if sz = cap then return ()
     else if sz = 0 then tidy this
     else reallocate this sz))"

subsection \<open>Insertion\<close>

text \<open>
  \<^verbatim>\<open>Emplace(Args&&... args)\<close> with one argument, from which \<^verbatim>\<open>std::construct_at\<close> copies
  or moves the new element: the argument is read after \<^verbatim>\<open>ensureCapacity\<close> has run.
\<close>

definition Emplace :: "nat \<Rightarrow> pointer \<Rightarrow> ('a, pointer) prog" where
  "Emplace this arg =
     bind (get_size this) (\<lambda>sz.
     bind (ensureCapacity this (sz + 1)) (\<lambda>_.
     bind (get_data this) (\<lambda>d.
     bind (get_size this) (\<lambda>sz'.
     bind (load arg) (\<lambda>v.
     bind (construct_at (ptr_add d sz') v) (\<lambda>newElement.
     bind (set_size this (sz' + 1)) (\<lambda>_.
     return newElement)))))))"

text \<open>
  \<^verbatim>\<open>void Add(const T&)\<close> and \<^verbatim>\<open>void Add(T&&)\<close> pass their reference on and drop the
  reference \<^verbatim>\<open>Emplace\<close> returns.
\<close>

definition Add :: "nat \<Rightarrow> pointer \<Rightarrow> ('a, unit) prog" where
  "Add this value = bind (Emplace this value) (\<lambda>_. return ())"

definition AddRange :: "nat \<Rightarrow> initializer_list \<Rightarrow> ('a, unit) prog" where
  "AddRange this ilist =
     (let count = ilist_size ilist in
      if count = 0 then return ()
      else
        bind (get_size this) (\<lambda>sz.
        bind (ensureCapacity this (sz + count)) (\<lambda>_.
        bind (get_data this) (\<lambda>d.
        bind (get_size this) (\<lambda>sz'.
        bind (uninitialized_copy_n (ilist_begin ilist) (unat count) (ptr_add d sz')) (\<lambda>_.
        set_size this (sz' + count)))))))"

text \<open>In \<^verbatim>\<open>EmplaceAt\<close> the argument is read after \<^verbatim>\<open>shiftRight\<close> has moved the tail.\<close>

definition EmplaceAt :: "nat \<Rightarrow> size_t \<Rightarrow> pointer \<Rightarrow> ('a, pointer) prog" where
  "EmplaceAt this index arg =
     bind (checkRange this index True) (\<lambda>_.
     bind (get_size this) (\<lambda>sz.
     bind (ensureCapacity this (sz + 1)) (\<lambda>_.
     bind (shiftRight this index 1) (\<lambda>_.
     bind (get_data this) (\<lambda>d.
     bind (load arg) (\<lambda>v.
     bind (construct_at (ptr_add d index) v) (\<lambda>newElement.
     bind (get_size this) (\<lambda>sz'.
     bind (set_size this (sz' + 1)) (\<lambda>_.
     return newElement)))))))))"

definition Insert :: "nat \<Rightarrow> size_t \<Rightarrow> pointer \<Rightarrow> ('a, unit) prog" where
  "Insert this index value = bind (EmplaceAt this index value) (\<lambda>_. return ())"

definition InsertRange :: "nat \<Rightarrow> size_t \<Rightarrow> initializer_list \<Rightarrow> ('a, unit) prog" where
  "InsertRange this index ilist =
     bind (checkRange this index True) (\<lambda>_.
     let count = ilist_size ilist in
     if count = 0 then return ()
     else
       bind (get_size this) (\<lambda>sz.
       bind (ensureCapacity this (sz + count)) (\<lambda>_.
       bind (shiftRight this index count) (\<lambda>_.
       bind (get_data this) (\<lambda>d.
       bind (uninitialized_copy_n (ilist_begin ilist) (unat count) (ptr_add d index)) (\<lambda>_.
       bind (get_size this) (\<lambda>sz'.
       set_size this (sz' + count))))))))"


subsection \<open>Lookup\<close>

definition INDEX_NONE :: size_t where
  "INDEX_NONE = - 1"

text \<open>A counter below a \<^verbatim>\<open>std::size_t\<close> bound can be incremented without wrapping.\<close>

lemma size_t_loop_measure:
  "(i::size_t) < n \<Longrightarrow> 18446744073709551616 - unat (i + 1) < (18446744073709551616::nat) - unat i"
proof -
  assume a: "i < n"
  have b: "unat (i + 1) = Suc (unat i)" using a by unat_arith
  have "unat (i + 1) < 2 ^ LENGTH(64)" by (rule unsigned_less)
  then have "Suc (unat i) < 18446744073709551616" using b by simp
  then show ?thesis using b by simp
qed

function FindIf_loop :: "nat \<Rightarrow> ('a \<Rightarrow> bool) \<Rightarrow> size_t \<Rightarrow> ('a, size_t) prog" where
  "FindIf_loop this pred i =
     bind (get_size this) (\<lambda>sz.
     if i < sz then
       bind (get_data this) (\<lambda>d.
       bind (load (ptr_add d i)) (\<lambda>v.
       if pred v then return i else FindIf_loop this pred (i + 1)))
     else return INDEX_NONE)"
  by pat_completeness auto
termination
  by (relation "measure (\<lambda>(this, pred, i). 2 ^ 64 - unat i)") (auto intro: size_t_loop_measure)

declare FindIf_loop.simps [simp del]

definition FindIf :: "nat \<Rightarrow> ('a \<Rightarrow> bool) \<Rightarrow> ('a, size_t) prog" where
  "FindIf this pred = FindIf_loop this pred 0"

text \<open>
  \<^verbatim>\<open>Find(value)\<close> is the same loop with the test \<^verbatim>\<open>m_data[i] == value\<close>. The parameter
  of \<^verbatim>\<open>Find\<close>, \<^verbatim>\<open>FindLast\<close>, \<^verbatim>\<open>Contains\<close> and \<^verbatim>\<open>Remove\<close> is a \<^verbatim>\<open>const T&\<close> that is
  read only while the container is unmodified (\<^verbatim>\<open>Remove\<close> reads it in \<^verbatim>\<open>Find\<close>, before
  \<^verbatim>\<open>RemoveAt\<close> runs), so it is given here by the value of the object it refers to.
\<close>

definition Find :: "nat \<Rightarrow> 'a \<Rightarrow> ('a, size_t) prog" where
  "Find this v = FindIf_loop this (\<lambda>x. x = v) 0"

function FindLastIf_loop :: "nat \<Rightarrow> ('a \<Rightarrow> bool) \<Rightarrow> size_t \<Rightarrow> ('a, size_t) prog" where
  "FindLastIf_loop this pred i =
     (if i > 0 then
        bind (get_data this) (\<lambda>d.
        bind (load (ptr_add d (i - 1))) (\<lambda>v.
        if pred v then return (i - 1) else FindLastIf_loop this pred (i - 1)))
      else return INDEX_NONE)"
  by pat_completeness auto
termination
  by (relation "measure (\<lambda>(this, pred, i). unat i)") (simp, simp, unat_arith)

declare FindLastIf_loop.simps [simp del]

definition FindLastIf :: "nat \<Rightarrow> ('a \<Rightarrow> bool) \<Rightarrow> ('a, size_t) prog" where
  "FindLastIf this pred = bind (get_size this) (\<lambda>sz. FindLastIf_loop this pred sz)"

definition FindLast :: "nat \<Rightarrow> 'a \<Rightarrow> ('a, size_t) prog" where
  "FindLast this v = bind (get_size this) (\<lambda>sz. FindLastIf_loop this (\<lambda>x. x = v) sz)"

definition Contains :: "nat \<Rightarrow> 'a \<Rightarrow> ('a, bool) prog" where
  "Contains this v = bind (Find this v) (\<lambda>i. return (i \<noteq> INDEX_NONE))"

definition ContainsIf :: "nat \<Rightarrow> ('a \<Rightarrow> bool) \<Rightarrow> ('a, bool) prog" where
  "ContainsIf this pred = bind (FindIf this pred) (\<lambda>i. return (i \<noteq> INDEX_NONE))"

subsection \<open>Removal\<close>

definition RemoveAt :: "nat \<Rightarrow> size_t \<Rightarrow> ('a, unit) prog" where
  "RemoveAt this index =
     bind (checkRange this index False) (\<lambda>_.
     bind (get_data this) (\<lambda>d.
     bind (destroy_at (ptr_add d index)) (\<lambda>_.
     bind (shiftLeft this index 1) (\<lambda>_.
     bind (get_size this) (\<lambda>sz.
     set_size this (sz - 1))))))"

definition RemoveRange :: "nat \<Rightarrow> size_t \<Rightarrow> size_t \<Rightarrow> ('a, unit) prog" where
  "RemoveRange this index count =
     bind (checkRange this index False) (\<lambda>_.
     if count = 0 then return ()
     else
       bind (get_size this) (\<lambda>sz.
       let count = (if index + count > sz then sz - index else count) in
       bind (get_data this) (\<lambda>d.
       bind (destroy_n (ptr_add d index) (unat count)) (\<lambda>_.
       bind (shiftLeft this index count) (\<lambda>_.
       bind (get_size this) (\<lambda>sz'.
       set_size this (sz' - count)))))))"

definition Remove :: "nat \<Rightarrow> 'a \<Rightarrow> ('a, bool) prog" where
  "Remove this v =
     bind (Find this v) (\<lambda>index.
     if index \<noteq> INDEX_NONE then bind (RemoveAt this index) (\<lambda>_. return True)
     else return False)"

function RemoveAll_loop :: "nat \<Rightarrow> ('a \<Rightarrow> bool) \<Rightarrow> size_t \<Rightarrow> size_t \<Rightarrow> ('a, size_t) prog" where
  "RemoveAll_loop this pred read write =
     bind (get_size this) (\<lambda>sz.
     if read < sz then
       bind (get_data this) (\<lambda>d.
       bind (load (ptr_add d read)) (\<lambda>v.
       if \<not> pred v then
         bind (if write \<noteq> read then
                 bind (load (ptr_add d read)) (\<lambda>v'.
                 bind (construct_at (ptr_add d write) v') (\<lambda>_.
                 destroy_at (ptr_add d read)))
               else return ()) (\<lambda>_.
         RemoveAll_loop this pred (read + 1) (write + 1))
       else
         bind (destroy_at (ptr_add d read)) (\<lambda>_.
         RemoveAll_loop this pred (read + 1) write)))
     else return write)"
  by pat_completeness auto
termination
  by (relation "measure (\<lambda>(this, pred, read, write). 2 ^ 64 - unat read)")
     (auto intro: size_t_loop_measure)

declare RemoveAll_loop.simps [simp del]

definition RemoveAll :: "nat \<Rightarrow> ('a \<Rightarrow> bool) \<Rightarrow> ('a, size_t) prog" where
  "RemoveAll this pred =
     bind (RemoveAll_loop this pred 0 0) (\<lambda>write.
     bind (get_size this) (\<lambda>sz.
     bind (set_size this write) (\<lambda>_.
     return (sz - write))))"

definition Clear :: "nat \<Rightarrow> ('a, unit) prog" where
  "Clear this =
     bind (get_data this) (\<lambda>d.
     bind (get_size this) (\<lambda>sz.
     bind (destroy_n d (unat sz)) (\<lambda>_.
     set_size this 0)))"

subsection \<open>Resizing and swapping\<close>

definition Resize :: "nat \<Rightarrow> size_t \<Rightarrow> pointer \<Rightarrow> ('a, unit) prog" where
  "Resize this newSize value =
     bind (get_size this) (\<lambda>sz.
     bind (if newSize < sz then
             bind (get_data this) (\<lambda>d.
             destroy_n (ptr_add d newSize) (unat (sz - newSize)))
           else if newSize > sz then
             bind (ensureCapacity this newSize) (\<lambda>_.
             bind (get_data this) (\<lambda>d.
             bind (get_size this) (\<lambda>sz'.
             uninitialized_fill_n (ptr_add d sz') (unat (newSize - sz')) value)))
           else return ()) (\<lambda>_.
     set_size this newSize))"

text \<open>
  \<^verbatim>\<open>Resize(newSize)\<close> delegates with the temporary \<^verbatim>\<open>T{}\<close>, whose value is the
  parameter \<open>T0\<close> here.
\<close>

definition Resize_default :: "nat \<Rightarrow> size_t \<Rightarrow> 'a \<Rightarrow> ('a, unit) prog" where
  "Resize_default this newSize T0 =
     bind (temporary T0) (\<lambda>value. Resize this newSize value)"

definition Swap :: "nat \<Rightarrow> nat \<Rightarrow> ('a, unit) prog" where
  "Swap this other =
     bind (get_data this) (\<lambda>d.
     bind (get_data other) (\<lambda>d'.
     bind (set_data this d') (\<lambda>_.
     bind (set_data other d) (\<lambda>_.
     bind (get_size this) (\<lambda>n.
     bind (get_size other) (\<lambda>n'.
     bind (set_size this n') (\<lambda>_.
     bind (set_size other n) (\<lambda>_.
     bind (get_capacity this) (\<lambda>c.
     bind (get_capacity other) (\<lambda>c'.
     bind (set_capacity this c') (\<lambda>_.
     set_capacity other c)))))))))))"

subsection \<open>Comparison\<close>

function eq_loop :: "nat \<Rightarrow> nat \<Rightarrow> size_t \<Rightarrow> ('a, bool) prog" where
  "eq_loop lhs rhs i =
     bind (get_size lhs) (\<lambda>sz.
     if i < sz then
       bind (get_data lhs) (\<lambda>dl.
       bind (load (ptr_add dl i)) (\<lambda>x.
       bind (get_data rhs) (\<lambda>dr.
       bind (load (ptr_add dr i)) (\<lambda>y.
       if x \<noteq> y then return False else eq_loop lhs rhs (i + 1)))))
     else return True)"
  by pat_completeness auto
termination
  by (relation "measure (\<lambda>(lhs, rhs, i). 2 ^ 64 - unat i)") (auto intro: size_t_loop_measure)

declare eq_loop.simps [simp del]

definition operator_eq :: "nat \<Rightarrow> nat \<Rightarrow> ('a, bool) prog" where
  "operator_eq lhs rhs =
     bind (get_size lhs) (\<lambda>n.
     bind (get_size rhs) (\<lambda>n'.
     if n \<noteq> n' then return False else eq_loop lhs rhs 0))"

text \<open>
  \<^verbatim>\<open>std::strong_ordering\<close>, and \<^verbatim>\<open>x <=> y\<close> for an element type (and for
  \<^verbatim>\<open>std::size_t\<close>) whose order is total.
\<close>

datatype strong_ordering = Less | Equal | Greater

definition three_way :: "'b::linorder \<Rightarrow> 'b \<Rightarrow> strong_ordering" where
  "three_way x y = (if x < y then Less else if x = y then Equal else Greater)"

function spaceship_loop :: "nat \<Rightarrow> nat \<Rightarrow> size_t \<Rightarrow> size_t \<Rightarrow> ('a::linorder, strong_ordering) prog" where
  "spaceship_loop lhs rhs minSize i =
     (if i < minSize then
        bind (get_data lhs) (\<lambda>dl.
        bind (load (ptr_add dl i)) (\<lambda>x.
        bind (get_data rhs) (\<lambda>dr.
        bind (load (ptr_add dr i)) (\<lambda>y.
        let cmp = three_way x y in
        if cmp \<noteq> Equal then return cmp else spaceship_loop lhs rhs minSize (i + 1)))))
      else
        bind (get_size lhs) (\<lambda>n.
        bind (get_size rhs) (\<lambda>n'.
        return (three_way n n'))))"
  by pat_completeness auto
termination
  by (relation "measure (\<lambda>(lhs, rhs, minSize, i). unat minSize - unat i)") (simp, simp, unat_arith)

declare spaceship_loop.simps [simp del]

definition operator_spaceship :: "nat \<Rightarrow> nat \<Rightarrow> ('a::linorder, strong_ordering) prog" where
  "operator_spaceship lhs rhs =
     bind (get_size lhs) (\<lambda>n.
     bind (get_size rhs) (\<lambda>n'.
     spaceship_loop lhs rhs (min n n') 0))"


section \<open>Abstraction and representation invariant\<close>

text \<open>
  \<open>elements w this\<close> is the logical sequence held by the container \<open>this\<close> in the
  world \<open>w\<close>: the values of the objects in the slots \<open>[0, m_size)\<close> of its storage.
\<close>

definition elements :: "'a world \<Rightarrow> nat \<Rightarrow> 'a list" where
  "elements w this = (case m_data (objs w this) of
       nullptr \<Rightarrow> []
     | Ptr a off \<Rightarrow> (case heap w a of
           None \<Rightarrow> []
         | Some blk \<Rightarrow> map the (take (unat (m_size (objs w this))) (drop off blk))))"

text \<open>
  \<open>valid w this\<close> is the state invariant of the data model: \<open>size \<le> capacity\<close>;
  the slots below \<open>size\<close> hold live objects; the storage is a whole block of exactly
  \<open>capacity\<close> slots; and \<open>capacity = 0\<close> exactly when there is no storage.
\<close>

definition valid :: "'a world \<Rightarrow> nat \<Rightarrow> bool" where
  "valid w this = (case m_data (objs w this) of
       nullptr \<Rightarrow> m_size (objs w this) = 0 \<and> m_capacity (objs w this) = 0
     | Ptr a off \<Rightarrow> off = 0 \<and> a < next_block w \<and> m_capacity (objs w this) \<noteq> 0 \<and>
         m_size (objs w this) \<le> m_capacity (objs w this) \<and>
         (case heap w a of
            None \<Rightarrow> False
          | Some blk \<Rightarrow> length blk = unat (m_capacity (objs w this)) \<and>
              list_all (\<lambda>s. s \<noteq> None) (take (unat (m_size (objs w this))) blk)))"

text \<open>Two container objects own different blocks (unless they are the same object).\<close>

definition separate :: "'a world \<Rightarrow> nat \<Rightarrow> nat \<Rightarrow> bool" where
  "separate w a b = (a = b \<or> m_data (objs w a) = nullptr \<or> m_data (objs w b) = nullptr \<or>
     block (m_data (objs w a)) \<noteq> block (m_data (objs w b)))"

section \<open>Specification-level notions and example states\<close>

text \<open>
  The initial world of the test program: nothing is allocated, every container object is
  empty, the elements are \<^verbatim>\<open>int\<close>s of four bytes, and \<^verbatim>\<open>::operator new\<close> refuses nothing.
\<close>

definition world0 :: "int world" where
  "world0 = \<lparr>heap = (\<lambda>_. None), next_block = 0,
     objs = (\<lambda>_. \<lparr>m_data = nullptr, m_size = 0, m_capacity = 0\<rparr>),
     sizeof_T = 4, new_fails = (\<lambda>_ _. False)\<rparr>"

text \<open>
  \<^verbatim>\<open>DynamicArray<int> arr{1, 2, 3}\<close> as object 0: the braced list is a backing array
  (block 0), which the constructor copies into the container's own storage (block 1).
\<close>

definition arr_123 :: "int world" where
  "arr_123 = snd (bind (braced_init_list [1, 2, 3]) (\<lambda>il. DynamicArray_ilist 0 il) world0)"


text \<open>\<^verbatim>\<open>arr{1, 2, 3}\<close> at a moment when \<^verbatim>\<open>::operator new\<close> refuses every request.\<close>

definition arr_123_exhausted :: "int world" where
  "arr_123_exhausted = arr_123\<lparr>new_fails := (\<lambda>_ _. True)\<rparr>"

text \<open>
  \<open>allocates w n\<close>: in the world \<open>w\<close> the call \<^verbatim>\<open>allocate(n)\<close> gets storage for \<open>n\<close>
  elements, that is, the byte count \<^verbatim>\<open>n * sizeof(T)\<close> does not wrap around and
  \<^verbatim>\<open>::operator new\<close> does not refuse it.
\<close>

definition allocates :: "'a world \<Rightarrow> size_t \<Rightarrow> bool" where
  "allocates w n = (sizeof_T w \<noteq> 0 \<and> unat n * unat (sizeof_T w) < 18446744073709551616 \<and>
     \<not> new_fails w (next_block w) (n * sizeof_T w))"

text \<open>The capacity \<^verbatim>\<open>ensureCapacity\<close> asks \<^verbatim>\<open>reallocate\<close> for.\<close>

definition grown_capacity :: "size_t \<Rightarrow> size_t \<Rightarrow> size_t" where
  "grown_capacity cap minCapacity =
     (let newCapacity = cap + cap div 2;
          newCapacity = (if cap > - 1 - cap div 2 then - 1 else newCapacity);
          newCapacity = (if newCapacity < minCapacity then minCapacity else newCapacity)
      in newCapacity)"

text \<open>\<^verbatim>\<open>DynamicArray<int> arr; arr.Reserve(10);\<close> as in \<^verbatim>\<open>TestCapacity\<close>.\<close>

definition reserved_10 :: "int world" where
  "reserved_10 = snd (Reserve 0 10 world0)"

text \<open>
  The containers of \<^verbatim>\<open>TestComparisons\<close>: \<^verbatim>\<open>a{1, 2, 3}\<close> is object 0, \<^verbatim>\<open>c{1, 2, 4}\<close> is
  object 1 and \<^verbatim>\<open>d{1, 2}\<close> is object 2; every other object is empty.
\<close>

definition test_arrays :: "int world" where
  "test_arrays = snd (bind (braced_init_list [1, 2, 4]) (\<lambda>il.
                      bind (DynamicArray_ilist 1 il) (\<lambda>_.
                      bind (braced_init_list [1, 2]) (\<lambda>il'.
                      DynamicArray_ilist 2 il'))) arr_123)"

text \<open>
  The specification's lexicographic order on sequences: compare pairwise; the first
  unequal pair decides; if one sequence runs out, the shorter one is less.
\<close>

fun lexicographic_compare :: "'b::linorder list \<Rightarrow> 'b list \<Rightarrow> strong_ordering" where
  "lexicographic_compare [] [] = Equal"
| "lexicographic_compare [] (y # ys) = Less"
| "lexicographic_compare (x # xs) [] = Greater"
| "lexicographic_compare (x # xs) (y # ys) =
     (if three_way x y \<noteq> Equal then three_way x y else lexicographic_compare xs ys)"

text \<open>\<^verbatim>\<open>DynamicArray<int> arr{1, 2, 3, 4, 5}\<close>, as object 0.\<close>

definition arr_12345 :: "int world" where
  "arr_12345 = snd (bind (braced_init_list [1, 2, 3, 4, 5]) (\<lambda>il. DynamicArray_ilist 0 il) world0)"

section \<open>Executing the primitives and the private helpers\<close>

lemma return_apply: "return r w = (Inr r, w)" by (simp add: return_def)

lemma throw_apply: "throw e w = (Inl e, w)" by (simp add: throw_def)

lemma bind_apply: "bind m f w = (case m w of (Inl e, w') \<Rightarrow> (Inl e, w') | (Inr r, w') \<Rightarrow> f r w')"
  by (simp add: bind_def)

lemma bind_Inr: "m w = (Inr r, w') \<Longrightarrow> bind m f w = f r w'" by (simp add: bind_def)

lemma bind_Inl: "m w = (Inl e, w') \<Longrightarrow> bind m f w = (Inl e, w')" by (simp add: bind_def)

lemmas field_defs = get_data_def get_size_def get_capacity_def set_data_def set_size_def set_capacity_def

lemma valid_cases:
  assumes "valid w this"
  obtains (empty) "m_data (objs w this) = nullptr" "m_size (objs w this) = 0" "m_capacity (objs w this) = 0"
  | (storage) a blk where "m_data (objs w this) = Ptr a 0" "heap w a = Some blk" "a < next_block w"
      "m_capacity (objs w this) \<noteq> 0" "m_size (objs w this) \<le> m_capacity (objs w this)"
      "length blk = unat (m_capacity (objs w this))"
      "\<forall>i < unat (m_size (objs w this)). blk ! i \<noteq> None"
proof (cases "m_data (objs w this)")
  case nullptr
  then show ?thesis using assms empty by (simp add: valid_def)
next
  case (Ptr a off)
  with assms obtain blk where b: "off = 0" "heap w a = Some blk" "a < next_block w"
      "m_capacity (objs w this) \<noteq> 0" "m_size (objs w this) \<le> m_capacity (objs w this)"
      "length blk = unat (m_capacity (objs w this))"
      "list_all (\<lambda>s. s \<noteq> None) (take (unat (m_size (objs w this))) blk)"
    by (auto simp: valid_def split: option.splits)
  have "unat (m_size (objs w this)) \<le> length blk"
    using b(5,6) by (simp add: word_le_nat_alt)
  then have "\<forall>i < unat (m_size (objs w this)). blk ! i \<noteq> None"
    using b(7) by (auto simp: list_all_length)
  then show ?thesis using storage Ptr b by simp
qed

lemma destroy_n_ok:
  "heap w a = Some blk \<Longrightarrow> off + n \<le> length blk \<Longrightarrow> \<forall>i<n. blk ! (off + i) \<noteq> None \<Longrightarrow>
   destroy_n (Ptr a off) n w =
     (Inr (), w\<lparr>heap := (heap w)(a \<mapsto> take off blk @ replicate n None @ drop (off + n) blk)\<rparr>)"
proof (induction n arbitrary: w blk off)
  case 0
  then show ?case by (simp add: return_def fun_upd_idem)
next
  case (Suc n)
  have live: "blk ! off \<noteq> None" using Suc.prems(3) by (metis add.right_neutral zero_less_Suc)
  then obtain v where v: "blk ! off = Some v" by auto
  have lt: "off < length blk" using Suc.prems(2) by simp
  let ?w1 = "w\<lparr>heap := (heap w)(a \<mapsto> blk[off := None])\<rparr>"
  have step: "destroy_at (Ptr a off) w = (Inr (), ?w1)"
    using Suc.prems(1) lt v by (simp add: destroy_at_def slot_def put_slot_def)
  have rest: "destroy_n (Ptr a (Suc off)) n ?w1 =
     (Inr (), ?w1\<lparr>heap := (heap ?w1)(a \<mapsto> take (Suc off) (blk[off := None]) @ replicate n None @ drop (Suc off + n) (blk[off := None]))\<rparr>)"
    apply (rule Suc.IH)
    using Suc.prems by auto
  have eq: "take (Suc off) (blk[off := None]) @ replicate n None @ drop (Suc off + n) (blk[off := None])
      = take off blk @ replicate (Suc n) None @ drop (off + Suc n) blk"
    using lt by (simp add: take_Suc_conv_app_nth)
  have e1: "destroy_n (Ptr a off) (Suc n) w = destroy_n (Ptr a (Suc off)) n ?w1"
    using step by (simp add: bind_apply ptr_add_def)
  have e2: "?w1\<lparr>heap := (heap ?w1)(a \<mapsto> ys)\<rparr> = w\<lparr>heap := (heap w)(a \<mapsto> ys)\<rparr>" for ys
    by simp
  show ?case
    unfolding e1 rest eq e2 ..
qed

lemma load_ok:
  "heap w a = Some blk \<Longrightarrow> off < length blk \<Longrightarrow> blk ! off = Some v \<Longrightarrow>
   load (Ptr a off) w = (Inr v, w)"
  by (simp add: load_def slot_def)

lemma construct_at_ok:
  "heap w a = Some blk \<Longrightarrow> off < length blk \<Longrightarrow>
   construct_at (Ptr a off) v w = (Inr (Ptr a off), w\<lparr>heap := (heap w)(a \<mapsto> blk[off := Some v])\<rparr>)"
  by (simp add: construct_at_def slot_def put_slot_def)

lemma destroy_at_ok:
  "heap w a = Some blk \<Longrightarrow> off < length blk \<Longrightarrow> blk ! off = Some v \<Longrightarrow>
   destroy_at (Ptr a off) w = (Inr (), w\<lparr>heap := (heap w)(a \<mapsto> blk[off := None])\<rparr>)"
  by (simp add: destroy_at_def slot_def put_slot_def)

lemma store_ok:
  "heap w a = Some blk \<Longrightarrow> off < length blk \<Longrightarrow> blk ! off = Some u \<Longrightarrow>
   store (Ptr a off) v w = (Inr (), w\<lparr>heap := (heap w)(a \<mapsto> blk[off := Some v])\<rparr>)"
  by (simp add: store_def slot_def put_slot_def)

lemma uninitialized_move_n_ok:
  "heap w a = Some blk \<Longrightarrow> heap w b = Some blk' \<Longrightarrow> a \<noteq> b \<Longrightarrow>
   so + n \<le> length blk \<Longrightarrow> do + n \<le> length blk' \<Longrightarrow> \<forall>i<n. blk ! (so + i) \<noteq> None \<Longrightarrow>
   uninitialized_move_n (Ptr a so) n (Ptr b do) w =
     (Inr (), w\<lparr>heap := (heap w)(b \<mapsto> take do blk' @ take n (drop so blk) @ drop (do + n) blk')\<rparr>)"
proof (induction n arbitrary: w blk' so do)
  case 0
  then show ?case by (simp add: return_def fun_upd_idem)
next
  case (Suc n)
  have "blk ! so \<noteq> None" using Suc.prems(6) by (metis add.right_neutral zero_less_Suc)
  then obtain v where v: "blk ! so = Some v" by auto
  have lt: "so < length blk" "do < length blk'" using Suc.prems by simp_all
  let ?w1 = "w\<lparr>heap := (heap w)(b \<mapsto> blk'[do := Some v])\<rparr>"
  have s1: "load (Ptr a so) w = (Inr v, w)"
    using Suc.prems(1) lt(1) v by (rule load_ok)
  have s2: "construct_at (Ptr b do) v w = (Inr (Ptr b do), ?w1)"
    using Suc.prems(2) lt(2) by (rule construct_at_ok)
  have rest: "uninitialized_move_n (Ptr a (Suc so)) n (Ptr b (Suc do)) ?w1 =
     (Inr (), ?w1\<lparr>heap := (heap ?w1)(b \<mapsto> take (Suc do) (blk'[do := Some v]) @ take n (drop (Suc so) blk) @ drop (Suc do + n) (blk'[do := Some v]))\<rparr>)"
    apply (rule Suc.IH)
    using Suc.prems by auto
  have eq: "take (Suc do) (blk'[do := Some v]) @ take n (drop (Suc so) blk) @ drop (Suc do + n) (blk'[do := Some v])
      = take do blk' @ take (Suc n) (drop so blk) @ drop (do + Suc n) blk'"
    using lt v by (simp add: take_Suc_conv_app_nth Cons_nth_drop_Suc [symmetric])
  have e1: "uninitialized_move_n (Ptr a so) (Suc n) (Ptr b do) w =
      uninitialized_move_n (Ptr a (Suc so)) n (Ptr b (Suc do)) ?w1"
    using s1 s2 by (simp add: bind_apply ptr_add_def)
  have e2: "?w1\<lparr>heap := (heap ?w1)(b \<mapsto> ys)\<rparr> = w\<lparr>heap := (heap w)(b \<mapsto> ys)\<rparr>" for ys
    by simp
  show ?case
    unfolding e1 rest eq e2 ..
qed

lemma uninitialized_copy_n_eq_move: "uninitialized_copy_n src n dst = uninitialized_move_n src n dst"
  by (induction n arbitrary: src dst) simp_all

lemma uninitialized_fill_n_ok:
  "heap w b = Some blk' \<Longrightarrow> do + n \<le> length blk' \<Longrightarrow>
   heap w s = Some sblk \<Longrightarrow> s \<noteq> b \<Longrightarrow> so < length sblk \<Longrightarrow> sblk ! so = Some v \<Longrightarrow>
   uninitialized_fill_n (Ptr b do) n (Ptr s so) w =
     (Inr (), w\<lparr>heap := (heap w)(b \<mapsto> take do blk' @ replicate n (Some v) @ drop (do + n) blk')\<rparr>)"
proof (induction n arbitrary: w blk' do)
  case 0
  then show ?case by (simp add: return_def fun_upd_idem)
next
  case (Suc n)
  have lt: "do < length blk'" using Suc.prems by simp
  let ?w1 = "w\<lparr>heap := (heap w)(b \<mapsto> blk'[do := Some v])\<rparr>"
  have s1: "load (Ptr s so) w = (Inr v, w)"
    using Suc.prems(3,5,6) by (rule load_ok)
  have s2: "construct_at (Ptr b do) v w = (Inr (Ptr b do), ?w1)"
    using Suc.prems(1) lt by (rule construct_at_ok)
  have rest: "uninitialized_fill_n (Ptr b (Suc do)) n (Ptr s so) ?w1 =
     (Inr (), ?w1\<lparr>heap := (heap ?w1)(b \<mapsto> take (Suc do) (blk'[do := Some v]) @ replicate n (Some v) @ drop (Suc do + n) (blk'[do := Some v]))\<rparr>)"
    apply (rule Suc.IH)
    using Suc.prems by auto
  have eq: "take (Suc do) (blk'[do := Some v]) @ replicate n (Some v) @ drop (Suc do + n) (blk'[do := Some v])
      = take do blk' @ replicate (Suc n) (Some v) @ drop (do + Suc n) blk'"
    using lt by (simp add: take_Suc_conv_app_nth)
  have e1: "uninitialized_fill_n (Ptr b do) (Suc n) (Ptr s so) w =
      uninitialized_fill_n (Ptr b (Suc do)) n (Ptr s so) ?w1"
    using s1 s2 by (simp add: bind_apply ptr_add_def)
  have e2: "?w1\<lparr>heap := (heap ?w1)(b \<mapsto> ys)\<rparr> = w\<lparr>heap := (heap w)(b \<mapsto> ys)\<rparr>" for ys
    by simp
  show ?case
    unfolding e1 rest eq e2 ..
qed

lemma DynamicArray_update_all [simp]:
  "(r::DynamicArray)\<lparr>m_data := d, m_size := n, m_capacity := c\<rparr> = \<lparr>m_data = d, m_size = n, m_capacity = c\<rparr>"
  by (cases r) simp

lemma destroy_n_zero: "destroy_n p 0 w = (Inr (), w)"
  by (simp add: return_def)

lemma replaceStorage_empty:
  "m_data (objs w this) = nullptr \<Longrightarrow> m_size (objs w this) = 0 \<Longrightarrow>
   replaceStorage this nd ns nc w =
     (Inr (), w\<lparr>objs := (objs w)(this := \<lparr>m_data = nd, m_size = ns, m_capacity = nc\<rparr>)\<rparr>)"
  by (simp add: replaceStorage_def bind_apply field_defs deallocate_def return_def)

lemma replaceStorage_storage:
  assumes "m_data (objs w this) = Ptr a 0" "heap w a = Some blk"
    "unat (m_size (objs w this)) \<le> length blk" "\<forall>i<unat (m_size (objs w this)). blk ! i \<noteq> None"
  shows "replaceStorage this nd ns nc w =
     (Inr (), w\<lparr>heap := (heap w)(a := None),
                objs := (objs w)(this := \<lparr>m_data = nd, m_size = ns, m_capacity = nc\<rparr>)\<rparr>)"
proof -
  have d: "destroy_n (Ptr a 0) (unat (m_size (objs w this))) w =
     (Inr (), w\<lparr>heap := (heap w)(a \<mapsto> take 0 blk @ replicate (unat (m_size (objs w this))) None @ drop (0 + unat (m_size (objs w this))) blk)\<rparr>)"
    by (rule destroy_n_ok) (use assms in auto)
  show ?thesis
    using assms(1) d
    by (simp add: replaceStorage_def bind_apply field_defs deallocate_def operator_delete_def)
qed

lemma allocate_ok:
  assumes "nc \<noteq> 0" "allocates w nc"
  shows "allocate nc w = (Inr (Ptr (next_block w) 0),
     w\<lparr>heap := (heap w)(next_block w \<mapsto> replicate (unat nc) None), next_block := Suc (next_block w)\<rparr>)"
proof -
  have "unat (nc * sizeof_T w) = unat nc * unat (sizeof_T w)"
    by (rule unat_mult_lem [THEN iffD1]) (use assms(2) in \<open>simp add: allocates_def\<close>)
  moreover have "0 < unat (sizeof_T w)"
    using assms(2) by (simp add: allocates_def unat_gt_0)
  ultimately have "unat (nc * sizeof_T w) div unat (sizeof_T w) = unat nc"
    by simp
  then show ?thesis
    using assms by (simp add: allocate_def sizeof_def operator_new_def bind_apply allocates_def)
qed

lemma allocate_bad_alloc:
  "nc \<noteq> 0 \<Longrightarrow> new_fails w (next_block w) (nc * sizeof_T w) \<Longrightarrow>
   allocate nc w = (Inl bad_alloc, w)"
  by (simp add: allocate_def sizeof_def operator_new_def bind_apply)

lemma allocates_frame:
  "sizeof_T w' = sizeof_T w \<Longrightarrow> new_fails w' = new_fails w \<Longrightarrow> next_block w' = next_block w \<Longrightarrow>
   allocates w' nc = allocates w nc"
  by (simp add: allocates_def)

lemma uninitialized_move_n_zero: "uninitialized_move_n p 0 q w = (Inr (), w)"
  by (simp add: return_def)

lemma reallocate_bad_alloc:
  "nc \<noteq> 0 \<Longrightarrow> new_fails w (next_block w) (nc * sizeof_T w) \<Longrightarrow>
   reallocate this nc w = (Inl bad_alloc, w)"
  by (simp add: reallocate_def bind_apply allocate_bad_alloc)

lemma reallocate_empty:
  assumes "m_data (objs w this) = nullptr" "m_size (objs w this) = 0" "nc \<noteq> 0"
    "allocates w nc"
  shows "reallocate this nc w =
     (Inr (), w\<lparr>heap := (heap w)(next_block w \<mapsto> replicate (unat nc) None),
                next_block := Suc (next_block w),
                objs := (objs w)(this := \<lparr>m_data = Ptr (next_block w) 0, m_size = 0, m_capacity = nc\<rparr>)\<rparr>)"
proof -
  let ?w1 = "w\<lparr>heap := (heap w)(next_block w \<mapsto> replicate (unat nc) None), next_block := Suc (next_block w)\<rparr>"
  have r: "replaceStorage this (Ptr (next_block w) 0) 0 nc ?w1 =
     (Inr (), ?w1\<lparr>objs := (objs ?w1)(this := \<lparr>m_data = Ptr (next_block w) 0, m_size = 0, m_capacity = nc\<rparr>)\<rparr>)"
    by (rule replaceStorage_empty) (use assms in auto)
  show ?thesis
    using assms r
    by (simp add: reallocate_def bind_apply allocate_ok field_defs return_def)
qed

lemma reallocate_storage:
  assumes "m_data (objs w this) = Ptr a 0" "heap w a = Some blk" "a < next_block w"
    "unat (m_size (objs w this)) \<le> length blk" "\<forall>i<unat (m_size (objs w this)). blk ! i \<noteq> None"
    "nc \<noteq> 0" "allocates w nc"
  shows "reallocate this nc w =
     (Inr (), w\<lparr>heap := (heap w)(next_block w \<mapsto>
                    take (unat (min (m_size (objs w this)) nc)) blk @
                    replicate (unat nc - unat (min (m_size (objs w this)) nc)) None, a := None),
                next_block := Suc (next_block w),
                objs := (objs w)(this := \<lparr>m_data = Ptr (next_block w) 0,
                   m_size = min (m_size (objs w this)) nc, m_capacity = nc\<rparr>)\<rparr>)"
proof -
  let ?nb = "next_block w"
  let ?n = "unat (min (m_size (objs w this)) nc)"
  let ?w1 = "w\<lparr>heap := (heap w)(?nb \<mapsto> replicate (unat nc) None), next_block := Suc ?nb\<rparr>"
  let ?new = "take ?n blk @ replicate (unat nc - ?n) None"
  let ?w2 = "?w1\<lparr>heap := (heap ?w1)(?nb \<mapsto> ?new)\<rparr>"
  have ne: "a \<noteq> ?nb" using assms(3) by simp
  have n_le: "?n \<le> unat (m_size (objs w this))" "?n \<le> unat nc"
    by (simp_all add: word_le_nat_alt [symmetric])
  have m: "uninitialized_move_n (Ptr a 0) ?n (Ptr ?nb 0) ?w1 =
     (Inr (), ?w1\<lparr>heap := (heap ?w1)(?nb \<mapsto> take 0 (replicate (unat nc) None) @ take ?n (drop 0 blk) @ drop (0 + ?n) (replicate (unat nc) None))\<rparr>)"
    apply (rule uninitialized_move_n_ok)
    using assms ne n_le by auto
  then have m': "uninitialized_move_n (Ptr a 0) ?n (Ptr ?nb 0) ?w1 = (Inr (), ?w2)"
    by simp
  have r: "replaceStorage this (Ptr ?nb 0) (min (m_size (objs w this)) nc) nc ?w2 =
     (Inr (), ?w2\<lparr>heap := (heap ?w2)(a := None),
        objs := (objs ?w2)(this := \<lparr>m_data = Ptr ?nb 0, m_size = min (m_size (objs w this)) nc, m_capacity = nc\<rparr>)\<rparr>)"
    apply (rule replaceStorage_storage [where blk = blk])
    using assms ne by auto
  show ?thesis
    using assms(1,6,7) m' r
    by (simp add: reallocate_def bind_apply allocate_ok field_defs return_def)
qed

lemma valid_storageI:
  "m_data (objs w this) = Ptr a 0 \<Longrightarrow> heap w a = Some blk \<Longrightarrow> a < next_block w \<Longrightarrow>
   m_capacity (objs w this) \<noteq> 0 \<Longrightarrow> m_size (objs w this) \<le> m_capacity (objs w this) \<Longrightarrow>
   length blk = unat (m_capacity (objs w this)) \<Longrightarrow>
   \<forall>i < unat (m_size (objs w this)). blk ! i \<noteq> None \<Longrightarrow> valid w this"
  by (auto simp: valid_def list_all_length)

lemma elements_storage:
  "m_data (objs w this) = Ptr a 0 \<Longrightarrow> heap w a = Some blk \<Longrightarrow>
   elements w this = map the (take (unat (m_size (objs w this))) blk)"
  by (simp add: elements_def)

lemma elements_empty:
  "m_data (objs w this) = nullptr \<Longrightarrow> elements w this = []"
  by (simp add: elements_def)

lemma reallocate_ok:
  assumes "valid w this" "nc \<noteq> 0" "allocates w nc"
  shows "\<exists>w'. reallocate this nc w = (Inr (), w') \<and> valid w' this \<and>
     m_data (objs w' this) = Ptr (next_block w) 0 \<and>
     m_capacity (objs w' this) = nc \<and>
     m_size (objs w' this) = min (m_size (objs w this)) nc \<and>
     elements w' this = take (unat nc) (elements w this)"
  using assms(1)
proof (cases rule: valid_cases)
  case empty
  let ?w' = "w\<lparr>heap := (heap w)(next_block w \<mapsto> replicate (unat nc) None),
                next_block := Suc (next_block w),
                objs := (objs w)(this := \<lparr>m_data = Ptr (next_block w) 0, m_size = 0, m_capacity = nc\<rparr>)\<rparr>"
  have "reallocate this nc w = (Inr (), ?w')"
    using empty assms(2,3) by (simp add: reallocate_empty)
  moreover have "valid ?w' this"
    using assms(2) by (simp add: valid_def)
  moreover have "elements ?w' this = take (unat nc) (elements w this)"
    using empty by (simp add: elements_def)
  ultimately show ?thesis using empty by auto
next
  case (storage a blk)
  let ?sz = "m_size (objs w this)"
  let ?n = "unat (min ?sz nc)"
  let ?new = "take ?n blk @ replicate (unat nc - ?n) None"
  let ?w' = "w\<lparr>heap := (heap w)(next_block w \<mapsto> ?new, a := None),
                next_block := Suc (next_block w),
                objs := (objs w)(this := \<lparr>m_data = Ptr (next_block w) 0,
                   m_size = min ?sz nc, m_capacity = nc\<rparr>)\<rparr>"
  have le: "unat ?sz \<le> length blk"
    using storage by (simp add: word_le_nat_alt)
  have n_le: "?n \<le> unat ?sz" "?n \<le> unat nc"
    by (simp_all add: word_le_nat_alt [symmetric])
  have ne: "a \<noteq> next_block w" using storage by simp
  have "reallocate this nc w = (Inr (), ?w')"
    using storage assms(2,3) le by (simp add: reallocate_storage)
  moreover have "valid ?w' this"
    apply (rule valid_storageI [where a = "next_block w" and blk = ?new])
    using assms(2) ne n_le le storage(7) by (auto simp: nth_append)
  moreover have "elements ?w' this = take (unat nc) (elements w this)"
    using ne n_le le storage(1,2)
    by (simp add: elements_def take_map min_def word_le_nat_alt split: if_splits)
  ultimately show ?thesis by auto
qed

subsection \<open>The example states, evaluated\<close>

lemmas exec_defs = bind_apply return_apply throw_apply field_defs
  slot_def put_slot_def ptr_add_def load_def store_def construct_at_def destroy_at_def
  allocate_def sizeof_def deallocate_def operator_new_def operator_delete_def

lemma destroy_n_numeral:
  "destroy_n p (numeral k) = bind (destroy_at p) (\<lambda>_. destroy_n (ptr_add p 1) (pred_numeral k))"
  by (simp add: numeral_eq_Suc)

lemma uninitialized_copy_n_numeral:
  "uninitialized_copy_n src (numeral k) dst =
     bind (load src) (\<lambda>v. bind (construct_at dst v) (\<lambda>_.
       uninitialized_copy_n (ptr_add src 1) (pred_numeral k) (ptr_add dst 1)))"
  by (simp add: numeral_eq_Suc)

lemma uninitialized_move_n_numeral:
  "uninitialized_move_n src (numeral k) dst =
     bind (load src) (\<lambda>v. bind (construct_at dst v) (\<lambda>_.
       uninitialized_move_n (ptr_add src 1) (pred_numeral k) (ptr_add dst 1)))"
  by (simp add: numeral_eq_Suc)

lemma uninitialized_fill_n_numeral:
  "uninitialized_fill_n dst (numeral k) value =
     bind (load value) (\<lambda>v.
     bind (construct_at dst v) (\<lambda>_. uninitialized_fill_n (ptr_add dst 1) (pred_numeral k) value))"
  by (simp add: numeral_eq_Suc)

lemma replicate_numeral: "replicate (numeral k) x = x # replicate (pred_numeral k) x"
  by (simp add: numeral_eq_Suc)

lemmas numeral_loops = destroy_n_numeral uninitialized_copy_n_numeral uninitialized_move_n_numeral
  uninitialized_fill_n_numeral

lemma arr_123_eq:
  "arr_123 = \<lparr>heap = (\<lambda>_. None)(0 \<mapsto> [Some 1, Some 2, Some 3], 1 \<mapsto> [Some 1, Some 2, Some 3]),
     next_block = 2,
     objs = (\<lambda>_. \<lparr>m_data = nullptr, m_size = 0, m_capacity = 0\<rparr>)
              (0 := \<lparr>m_data = Ptr 1 0, m_size = 3, m_capacity = 3\<rparr>),
     sizeof_T = 4, new_fails = (\<lambda>_ _. False)\<rparr>"
  by (simp add: arr_123_def world0_def braced_init_list_def DynamicArray_ilist_def
      DynamicArray_default_def assign_def replaceStorage_def exec_defs numeral_loops replicate_numeral)

lemma checkRange_apply:
  "checkRange this i allowEnd w =
     (if m_size (objs w this) + (if allowEnd then 1 else 0) \<le> i then (Inl out_of_range, w) else (Inr (), w))"
  by (simp add: checkRange_def bind_apply get_size_def throw_def return_def)

lemma subscript_apply:
  "subscript this i w =
     (if m_size (objs w this) \<le> i then (Inl out_of_range, w)
      else (Inr (ptr_add (m_data (objs w this)) i), w))"
  by (simp add: subscript_def bind_apply checkRange_apply get_data_def return_def)

lemma load_element:
  assumes "valid w this" "i < m_size (objs w this)"
  shows "load (ptr_add (m_data (objs w this)) i) w = (Inr (elements w this ! unat i), w)"
  using assms(1)
proof (cases rule: valid_cases)
  case empty
  then show ?thesis using assms(2) by simp
next
  case (storage a blk)
  have lt: "unat i < unat (m_size (objs w this))"
    using assms(2) by (simp add: word_less_nat_alt)
  have le: "unat (m_size (objs w this)) \<le> length blk"
    using storage by (simp add: word_le_nat_alt)
  obtain v where v: "blk ! unat i = Some v"
    using storage(7) lt by auto
  have "load (Ptr a (unat i)) w = (Inr v, w)"
    using storage(2) lt le v by (intro load_ok) auto
  moreover have "elements w this ! unat i = v"
    using storage(1,2) lt le v by (simp add: elements_def)
  ultimately show ?thesis
    using storage(1) by (simp add: ptr_add_def)
qed

lemma valid_arr_123: "valid arr_123 0"
  by (simp add: arr_123_eq valid_def)

lemma elements_arr_123: "elements arr_123 0 = [1, 2, 3]"
  by (simp add: arr_123_eq elements_def)

subsection \<open>Swapping, clearing and writing through the data pointer\<close>

lemma DynamicArray_eta [simp]:
  "\<lparr>m_data = m_data r, m_size = m_size r, m_capacity = m_capacity r\<rparr> = (r::DynamicArray)"
  by (cases r) simp

lemma elements_transfer:
  "objs w' a = objs w b \<Longrightarrow> heap w' = heap w \<Longrightarrow> elements w' a = elements w b"
  by (simp add: elements_def split: pointer.splits option.splits)

lemma valid_transfer:
  "objs w' a = objs w b \<Longrightarrow> heap w' = heap w \<Longrightarrow> next_block w' = next_block w \<Longrightarrow>
   valid w' a = valid w b"
  by (simp add: valid_def split: pointer.splits option.splits)

lemma Swap_apply:
  "Swap a b w = (Inr (), w\<lparr>objs := (objs w)(a := objs w b, b := objs w a)\<rparr>)"
proof (cases "a = b")
  case True
  then show ?thesis
    by (simp add: Swap_def bind_apply field_defs)
next
  case False
  then show ?thesis
    by (simp add: Swap_def bind_apply field_defs fun_upd_twist)
qed

lemma Clear_ok:
  assumes "valid w this"
  shows "\<exists>w'. Clear this w = (Inr (), w') \<and> valid w' this \<and> elements w' this = [] \<and>
     objs w' this = (objs w this)\<lparr>m_size := 0\<rparr> \<and> next_block w' = next_block w"
  using assms
proof (cases rule: valid_cases)
  case empty
  then have "Clear this w = (Inr (), w\<lparr>objs := (objs w)(this := (objs w this)\<lparr>m_size := 0\<rparr>)\<rparr>)"
    by (simp add: Clear_def bind_apply field_defs return_def)
  moreover have "valid (w\<lparr>objs := (objs w)(this := (objs w this)\<lparr>m_size := 0\<rparr>)\<rparr>) this"
    using empty by (simp add: valid_def)
  ultimately show ?thesis using empty by (simp add: elements_def)
next
  case (storage a blk)
  let ?n = "unat (m_size (objs w this))"
  let ?blk = "replicate ?n None @ drop ?n blk"
  let ?v = "w\<lparr>heap := (heap w)(a \<mapsto> ?blk), objs := (objs w)(this := (objs w this)\<lparr>m_size := 0\<rparr>)\<rparr>"
  have le: "?n \<le> length blk"
    using storage by (simp add: word_le_nat_alt)
  have d: "destroy_n (Ptr a 0) ?n w =
     (Inr (), w\<lparr>heap := (heap w)(a \<mapsto> take 0 blk @ replicate ?n None @ drop (0 + ?n) blk)\<rparr>)"
    by (rule destroy_n_ok) (use storage le in auto)
  have "Clear this w = (Inr (), ?v)"
    using storage(1) d by (simp add: Clear_def bind_apply field_defs)
  moreover have "valid ?v this"
    by (rule valid_storageI [where a = a and blk = ?blk]) (use storage le in auto)
  moreover have "elements ?v this = []"
    using storage(1) by (simp add: elements_def)
  ultimately show ?thesis by simp
qed

lemma valid_null_iff:
  "valid w this \<Longrightarrow> m_data (objs w this) = nullptr \<longleftrightarrow> m_capacity (objs w this) = 0"
  by (erule valid_cases) auto

lemma store_element:
  assumes "valid w this" "i < m_size (objs w this)"
  shows "\<exists>w'. store (ptr_add (m_data (objs w this)) i) v w = (Inr (), w') \<and> valid w' this \<and>
     objs w' = objs w \<and> elements w' this = (elements w this)[unat i := v]"
  using assms(1)
proof (cases rule: valid_cases)
  case empty
  then show ?thesis using assms(2) by simp
next
  case (storage a blk)
  let ?v = "w\<lparr>heap := (heap w)(a \<mapsto> blk[unat i := Some v])\<rparr>"
  have lt: "unat i < unat (m_size (objs w this))"
    using assms(2) by (simp add: word_less_nat_alt)
  have le: "unat (m_size (objs w this)) \<le> length blk"
    using storage by (simp add: word_le_nat_alt)
  obtain u where u: "blk ! unat i = Some u"
    using storage(7) lt by auto
  have "store (Ptr a (unat i)) v w = (Inr (), ?v)"
    using storage(2) lt le u by (intro store_ok) auto
  moreover have "valid ?v this"
    apply (rule valid_storageI [where a = a and blk = "blk[unat i := Some v]"])
    using storage le lt by (auto simp: nth_list_update)
  moreover have "elements ?v this = (elements w this)[unat i := v]"
    using storage(1,2) lt le by (simp add: elements_def take_update_swap map_update)
  ultimately show ?thesis
    using storage(1) by (simp add: ptr_add_def)
qed

subsection \<open>Capacity growth and appending\<close>

lemma ensureCapacity_apply:
  "ensureCapacity this mc w =
     (if mc \<le> m_capacity (objs w this) then (Inr (), w)
      else reallocate this (grown_capacity (m_capacity (objs w this)) mc) w)"
  by (simp add: ensureCapacity_def grown_capacity_def bind_apply get_capacity_def return_def Let_def)

lemma unat_max: "unat (- 1 :: size_t) = 18446744073709551615"
  by (simp add: unsigned_minus_1_eq_mask mask_eq_exp_minus_1)

lemma unat_max_minus: "unat (- 1 - (x::size_t)) = 18446744073709551615 - unat x"
proof -
  have "x \<le> - 1" by simp
  then have "unat (- 1 - x) = unat (- 1 :: size_t) - unat x"
    by (rule unat_sub)
  then show ?thesis by (simp add: unat_max)
qed

lemma overflow_test:
  "(cap::size_t) > - 1 - cap div 2 \<longleftrightarrow> unat cap + unat cap div 2 > 18446744073709551615"
proof -
  have "unat cap div 2 \<le> 18446744073709551615"
    using unsigned_less [of cap, where 'a = nat] by simp
  then show ?thesis
    by (simp add: word_less_nat_alt unat_max_minus unat_div) linarith
qed

lemma no_overflow_add:
  "\<not> (cap::size_t) > - 1 - cap div 2 \<Longrightarrow> unat (cap + cap div 2) = unat cap + unat cap div 2"
  by (simp add: overflow_test unat_plus_if' unat_div)

lemma grown_capacity_formula:
  "unat (grown_capacity cap mc) = max (unat mc) (min 18446744073709551615 (unat cap + unat cap div 2))"
proof (cases "cap > - 1 - cap div 2")
  case True
  then have "unat cap + unat cap div 2 > 18446744073709551615" by (simp add: overflow_test)
  moreover have "unat mc \<le> 18446744073709551615"
    using unsigned_less [of mc, where 'a = nat] by simp
  ultimately show ?thesis using True
    by (simp add: grown_capacity_def Let_def word_less_nat_alt unat_max)
next
  case False
  then have a: "unat (cap + cap div 2) = unat cap + unat cap div 2" by (rule no_overflow_add)
  have "unat cap + unat cap div 2 \<le> 18446744073709551615" using False by (simp add: overflow_test)
  then show ?thesis using False a
    by (simp add: grown_capacity_def Let_def word_less_nat_alt max_def)
qed

lemma grown_capacity_ge: "mc \<le> grown_capacity cap mc"
  by (simp add: word_le_nat_alt grown_capacity_formula)

lemma length_elements:
  "valid w this \<Longrightarrow> length (elements w this) = unat (m_size (objs w this))"
  by (erule valid_cases) (auto simp: elements_def word_le_nat_alt)

lemma reallocate_grow:
  assumes "valid w this" "m_capacity (objs w this) < nc" "allocates w nc"
  shows "\<exists>w'. reallocate this nc w = (Inr (), w') \<and> valid w' this \<and>
     m_data (objs w' this) = Ptr (next_block w) 0 \<and>
     m_capacity (objs w' this) = nc \<and>
     m_size (objs w' this) = m_size (objs w this) \<and>
     elements w' this = elements w this"
proof -
  have nz: "nc \<noteq> 0" using assms(2) by auto
  have sz: "m_size (objs w this) \<le> m_capacity (objs w this)"
    using assms(1) by (rule valid_cases) auto
  then have lt: "m_size (objs w this) < nc" using assms(2) by simp
  then have "unat (m_size (objs w this)) \<le> unat nc" by (simp add: word_less_nat_alt)
  then have "take (unat nc) (elements w this) = elements w this"
    using assms(1) by (simp add: length_elements)
  moreover have "min (m_size (objs w this)) nc = m_size (objs w this)" using lt by simp
  ultimately show ?thesis
    using reallocate_ok [OF assms(1) nz assms(3)] by auto
qed

text \<open>
  \<^verbatim>\<open>ensureCapacity(mc)\<close> does nothing when the capacity suffices. Otherwise it asks for
  the grown capacity: when \<^verbatim>\<open>::operator new\<close> refuses, \<^verbatim>\<open>std::bad_alloc\<close> leaves and nothing
  has changed; when the storage is obtained, the elements move into it.
\<close>

lemma ensureCapacity_ok:
  assumes "valid w this"
    "mc \<le> m_capacity (objs w this) \<or> allocates w (grown_capacity (m_capacity (objs w this)) mc)"
  shows "\<exists>w'. ensureCapacity this mc w = (Inr (), w') \<and> valid w' this \<and>
     elements w' this = elements w this \<and>
     m_size (objs w' this) = m_size (objs w this) \<and>
     mc \<le> m_capacity (objs w' this) \<and>
     unat (m_capacity (objs w' this)) =
       (if mc \<le> m_capacity (objs w this) then unat (m_capacity (objs w this))
        else max (unat mc) (min 18446744073709551615
               (unat (m_capacity (objs w this)) + unat (m_capacity (objs w this)) div 2)))"
proof (cases "mc \<le> m_capacity (objs w this)")
  case True
  then show ?thesis using assms(1) by (simp add: ensureCapacity_apply)
next
  case False
  let ?nc = "grown_capacity (m_capacity (objs w this)) mc"
  have lt: "m_capacity (objs w this) < ?nc"
    using False grown_capacity_ge [of mc "m_capacity (objs w this)"] by simp
  have al: "allocates w ?nc"
    using False assms(2) by simp
  from reallocate_grow [OF assms(1) lt al] show ?thesis
    using False by (auto simp: ensureCapacity_apply grown_capacity_ge grown_capacity_formula)
qed

lemma ensureCapacity_bad_alloc:
  assumes "\<not> mc \<le> m_capacity (objs w this)"
    "new_fails w (next_block w) (grown_capacity (m_capacity (objs w this)) mc * sizeof_T w)"
  shows "ensureCapacity this mc w = (Inl bad_alloc, w)"
proof -
  have "m_capacity (objs w this) < grown_capacity (m_capacity (objs w this)) mc"
    using assms(1) grown_capacity_ge [of mc "m_capacity (objs w this)"] by simp
  then have "grown_capacity (m_capacity (objs w this)) mc \<noteq> 0"
    by auto
  then show ?thesis
    using assms by (simp add: ensureCapacity_apply reallocate_bad_alloc)
qed

text \<open>A reallocation leaves every other block of the store as it is.\<close>

lemma reallocate_frame:
  assumes "valid w this" "nc \<noteq> 0" "s < next_block w" "m_data (objs w this) \<noteq> Ptr s 0"
    "allocates w nc"
  shows "heap (snd (reallocate this nc w)) s = heap w s"
  using assms(1)
proof (cases rule: valid_cases)
  case empty
  then show ?thesis
    using assms(2,3,5) by (simp add: reallocate_empty)
next
  case (storage a blk)
  have "reallocate this nc w =
     (Inr (), w\<lparr>heap := (heap w)(next_block w \<mapsto>
                    take (unat (min (m_size (objs w this)) nc)) blk @
                    replicate (unat nc - unat (min (m_size (objs w this)) nc)) None, a := None),
                next_block := Suc (next_block w),
                objs := (objs w)(this := \<lparr>m_data = Ptr (next_block w) 0,
                   m_size = min (m_size (objs w this)) nc, m_capacity = nc\<rparr>)\<rparr>)"
    by (rule reallocate_storage) (use storage assms(2,5) in \<open>auto simp: word_le_nat_alt\<close>)
  then show ?thesis
    using assms(3,4) storage(1) by auto
qed

lemma ensureCapacity_frame:
  assumes "valid w this" "s < next_block w" "m_data (objs w this) \<noteq> Ptr s 0"
    "mc \<le> m_capacity (objs w this) \<or> allocates w (grown_capacity (m_capacity (objs w this)) mc)"
  shows "heap (snd (ensureCapacity this mc w)) s = heap w s"
proof (cases "mc \<le> m_capacity (objs w this)")
  case True
  then show ?thesis by (simp add: ensureCapacity_apply)
next
  case False
  let ?nc = "grown_capacity (m_capacity (objs w this)) mc"
  have "m_capacity (objs w this) < ?nc"
    using False grown_capacity_ge [of mc "m_capacity (objs w this)"] by simp
  then have nz: "?nc \<noteq> 0" by auto
  have al: "allocates w ?nc"
    using False assms(4) by simp
  from reallocate_frame [OF assms(1) nz assms(2,3) al] show ?thesis
    using False by (simp add: ensureCapacity_apply)
qed

lemma ensureCapacity_fresh:
  assumes "valid w this" "s < next_block w" "m_data (objs w this) \<noteq> Ptr s 0"
    "mc \<le> m_capacity (objs w this) \<or> allocates w (grown_capacity (m_capacity (objs w this)) mc)"
  shows "m_data (objs (snd (ensureCapacity this mc w)) this) \<noteq> Ptr s 0"
proof (cases "mc \<le> m_capacity (objs w this)")
  case True
  then show ?thesis using assms(3) by (simp add: ensureCapacity_apply)
next
  case False
  let ?nc = "grown_capacity (m_capacity (objs w this)) mc"
  have lt: "m_capacity (objs w this) < ?nc"
    using False grown_capacity_ge [of mc "m_capacity (objs w this)"] by simp
  have al: "allocates w ?nc"
    using False assms(4) by simp
  from reallocate_grow [OF assms(1) lt al] show ?thesis
    using False assms(2) by (auto simp: ensureCapacity_apply)
qed

lemma Reserve_apply:
  "Reserve this n w = (if n \<le> m_capacity (objs w this) then (Inr (), w) else reallocate this n w)"
  by (auto simp: Reserve_def bind_apply get_capacity_def return_def)

lemma reserved_10_eq:
  "reserved_10 = \<lparr>heap = (\<lambda>_. None)(0 \<mapsto> replicate 10 None), next_block = 1,
     objs = (\<lambda>_. \<lparr>m_data = nullptr, m_size = 0, m_capacity = 0\<rparr>)
              (0 := \<lparr>m_data = Ptr 0 0, m_size = 0, m_capacity = 10\<rparr>),
     sizeof_T = 4, new_fails = (\<lambda>_ _. False)\<rparr>"
  by (simp add: reserved_10_def world0_def Reserve_apply reallocate_empty allocates_def)

lemma valid_reserved_10: "valid reserved_10 0"
  by (simp add: reserved_10_eq valid_def)

lemma Data_apply: "Data this w = (Inr (m_data (objs w this)), w)"
  by (simp add: Data_def get_data_def)

lemma size_t_succ: "(n::size_t) \<noteq> - 1 \<Longrightarrow> unat (n + 1) = Suc (unat n)"
proof -
  assume "n \<noteq> - 1"
  then have "unat n \<noteq> unat (- 1 :: size_t)" by (simp add: word_unat_eq_iff)
  moreover have "unat n < 2 ^ LENGTH(64)" by (rule unsigned_less)
  ultimately have "unat n + 1 < 2 ^ LENGTH(64)" by (simp add: unat_max)
  then show ?thesis by (simp add: unat_plus_if')
qed


lemma Add_apply:
  "Add this value w =
     (case Emplace this value w of (Inl e, w') \<Rightarrow> (Inl e, w') | (Inr p, w') \<Rightarrow> (Inr (), w'))"
  by (simp add: Add_def bind_apply return_def)

text \<open>When the storage has to grow and \<^verbatim>\<open>::operator new\<close> refuses, nothing has changed.\<close>

lemma Emplace_bad_alloc:
  assumes "\<not> m_size (objs w this) + 1 \<le> m_capacity (objs w this)"
    "new_fails w (next_block w)
       (grown_capacity (m_capacity (objs w this)) (m_size (objs w this) + 1) * sizeof_T w)"
  shows "Emplace this arg w = (Inl bad_alloc, w)" and "Add this arg w = (Inl bad_alloc, w)"
proof -
  show "Emplace this arg w = (Inl bad_alloc, w)"
    using ensureCapacity_bad_alloc [OF assms]
    by (simp add: Emplace_def bind_apply get_size_def)
  then show "Add this arg w = (Inl bad_alloc, w)"
    by (simp add: Add_apply)
qed

text \<open>
  The size bound is needed: with \<^verbatim>\<open>m_size == SIZE_MAX\<close> the sum \<^verbatim>\<open>m_size + 1\<close> wraps to 0,
  no storage is added, and the new element is constructed past the end of the block.
\<close>

lemma Emplace_at_SIZE_MAX:
  assumes "valid w this" "m_size (objs w this) = - 1"
  shows "fst (Emplace this arg w) = Inl undefined_behaviour"
  using assms(1)
proof (cases rule: valid_cases)
  case empty
  then show ?thesis using assms(2) by simp
next
  case (storage a blk)
  have "m_capacity (objs w this) = - 1"
    using storage(5) assms(2) by (simp add: word_le_nat_alt unat_max word_unat_eq_iff)
      (use unsigned_less [of "m_capacity (objs w this)", where 'a = nat] in simp)
  then have "length blk = unat (m_size (objs w this))"
    using storage(6) assms(2) by simp
  then show ?thesis
    using storage(1,2) assms(2)
    by (simp add: Emplace_def bind_apply field_defs ensureCapacity_apply construct_at_def
        load_def slot_def ptr_add_def split: option.splits pointer.splits)
qed

text \<open>
  The aliasing case: \<^verbatim>\<open>arr.Add(arr[0])\<close> on \<^verbatim>\<open>arr{1, 2, 3}\<close>, whose capacity is 3. The
  storage grows, \<^verbatim>\<open>replaceStorage\<close> destroys the elements and releases the old block,
  and the argument, which refers into that block, is read afterwards.
\<close>

lemma Add_of_own_element:
  "fst (subscript 0 0 arr_123) = Inr (Ptr 1 0) \<and>
   fst (Add 0 (Ptr 1 0) arr_123) = Inl undefined_behaviour"
  by (simp add: Add_apply Emplace_def ensureCapacity_apply grown_capacity_def Let_def
      reallocate_def replaceStorage_def subscript_apply arr_123_eq exec_defs numeral_loops
      replicate_numeral min_def)

subsection \<open>Move construction and assignment\<close>

lemma DynamicArray_move_apply:
  "a \<noteq> b \<Longrightarrow> DynamicArray_move b a w =
     (Inr (), w\<lparr>objs := (objs w)(a := \<lparr>m_data = nullptr, m_size = 0, m_capacity = 0\<rparr>, b := objs w a)\<rparr>)"
  by (simp add: DynamicArray_move_def exchange_data_def exchange_size_def exchange_capacity_def
      bind_apply field_defs return_def fun_upd_twist)

lemma valid_emptyI:
  "objs w this = \<lparr>m_data = nullptr, m_size = 0, m_capacity = 0\<rparr> \<Longrightarrow> valid w this"
  by (simp add: valid_def)

lemma move_assign_self: "move_assign a a w = (Inr (), w)"
  by (simp add: move_assign_def return_def)

lemma copy_assign_self: "copy_assign a a w = (Inr (), w)"
  by (simp add: copy_assign_def return_def)

lemma move_assign_ok:
  assumes "valid w a" "valid w b" "a \<noteq> b" "separate w a b"
  shows "\<exists>w'. move_assign b a w = (Inr (), w') \<and> objs w' b = objs w a \<and>
     objs w' a = \<lparr>m_data = nullptr, m_size = 0, m_capacity = 0\<rparr> \<and>
     elements w' b = elements w a \<and> valid w' b \<and> valid w' a"
  using assms(2)
proof (cases rule: valid_cases)
  case empty
  let ?v = "w\<lparr>objs := (objs w)(a := \<lparr>m_data = nullptr, m_size = 0, m_capacity = 0\<rparr>, b := objs w a)\<rparr>"
  have run: "move_assign b a w = (Inr (), ?v)"
    using assms(3) empty
    by (simp add: move_assign_def exchange_data_def exchange_size_def exchange_capacity_def
        deallocate_def bind_apply field_defs return_def fun_upd_twist)
  have o: "objs ?v b = objs w a" "heap ?v = heap w" "next_block ?v = next_block w"
    by simp_all
  have "elements ?v b = elements w a"
    by (rule elements_transfer) (simp_all add: o)
  moreover have "valid ?v b"
    using valid_transfer [of ?v b w a] o assms(1) by simp
  moreover have "valid ?v a"
    using assms(3) by (intro valid_emptyI) simp
  ultimately show ?thesis
    using run assms(3) by simp
next
  case (storage bb blk)
  let ?v = "w\<lparr>heap := (heap w)(bb := None),
               objs := (objs w)(a := \<lparr>m_data = nullptr, m_size = 0, m_capacity = 0\<rparr>, b := objs w a)\<rparr>"
  have le: "unat (m_size (objs w b)) \<le> length blk"
    using storage by (simp add: word_le_nat_alt)
  have d: "destroy_n (Ptr bb 0) (unat (m_size (objs w b))) w =
     (Inr (), w\<lparr>heap := (heap w)(bb \<mapsto> take 0 blk @ replicate (unat (m_size (objs w b))) None @
        drop (0 + unat (m_size (objs w b))) blk)\<rparr>)"
    by (rule destroy_n_ok) (use storage le in auto)
  have run: "move_assign b a w = (Inr (), ?v)"
    using assms(3) storage(1) d
    by (simp add: move_assign_def exchange_data_def exchange_size_def exchange_capacity_def
        deallocate_def operator_delete_def bind_apply field_defs return_def fun_upd_twist)
  have o: "objs ?v b = objs w a" "next_block ?v = next_block w"
    by simp_all
  from assms(1) have "elements ?v b = elements w a \<and> valid ?v b"
  proof (cases rule: valid_cases)
    case empty
    then show ?thesis by (simp add: elements_def valid_def)
  next
    case (storage aa blka)
    then have "aa \<noteq> bb"
      using assms(3,4) \<open>m_data (objs w b) = Ptr bb 0\<close> by (simp add: separate_def)
    then have h: "heap ?v aa = Some blka"
      using storage(2) by simp
    have "valid ?v b"
      by (rule valid_storageI [where a = aa and blk = blka]) (use storage h in simp_all)
    moreover have "elements ?v b = elements w a"
      using storage(1,2) h by (simp add: elements_def)
    ultimately show ?thesis by simp
  qed
  moreover have "valid ?v a"
    using assms(3) by (intro valid_emptyI) simp
  ultimately show ?thesis
    using run assms(3) by simp
qed

lemma test_arrays_eq:
  "test_arrays = \<lparr>heap = (\<lambda>_. None)(0 \<mapsto> [Some 1, Some 2, Some 3], 1 \<mapsto> [Some 1, Some 2, Some 3],
       2 \<mapsto> [Some 1, Some 2, Some 4], 3 \<mapsto> [Some 1, Some 2, Some 4],
       4 \<mapsto> [Some 1, Some 2], 5 \<mapsto> [Some 1, Some 2]),
     next_block = 6,
     objs = (\<lambda>_. \<lparr>m_data = nullptr, m_size = 0, m_capacity = 0\<rparr>)
              (0 := \<lparr>m_data = Ptr 1 0, m_size = 3, m_capacity = 3\<rparr>,
               1 := \<lparr>m_data = Ptr 3 0, m_size = 3, m_capacity = 3\<rparr>,
               2 := \<lparr>m_data = Ptr 5 0, m_size = 2, m_capacity = 2\<rparr>),
     sizeof_T = 4, new_fails = (\<lambda>_ _. False)\<rparr>"
  by (simp add: test_arrays_def arr_123_eq braced_init_list_def DynamicArray_ilist_def
      DynamicArray_default_def assign_def replaceStorage_def exec_defs numeral_loops replicate_numeral)

lemma valid_test_arrays: "valid test_arrays 0" "valid test_arrays 1" "valid test_arrays 2"
  "valid test_arrays 3"
  by (simp_all add: test_arrays_eq valid_def)

lemma elements_test_arrays: "elements test_arrays 0 = [1, 2, 3]" "elements test_arrays 1 = [1, 2, 4]"
  "elements test_arrays 2 = [1, 2]" "elements test_arrays 3 = []"
  by (simp_all add: test_arrays_eq elements_def)

subsection \<open>Comparison\<close>

lemma three_way_Equal [simp]: "three_way x y = Equal \<longleftrightarrow> x = y"
  by (simp add: three_way_def)

lemma three_way_refl [simp]: "three_way x x = Equal"
  by simp

lemma lexicographic_compare_Nil:
  "lexicographic_compare [] ys = (if ys = [] then Equal else Less)"
  "lexicographic_compare xs [] = (if xs = [] then Equal else Greater)"
  by (cases ys; simp) (cases xs; simp)

lemma lexicographic_compare_prefix:
  "\<forall>k < min (length xs) (length ys). xs ! k = ys ! k \<Longrightarrow>
   lexicographic_compare xs ys = three_way (length xs) (length ys)"
proof (induction xs ys rule: lexicographic_compare.induct)
  case (4 x xs y ys)
  have "x = y" using "4.prems" by (auto dest: spec [of _ 0])
  moreover have "\<forall>k < min (length xs) (length ys). xs ! k = ys ! k"
    using "4.prems" by (auto dest: spec [of _ "Suc k" for k])
  ultimately show ?case using "4.IH" by (simp add: three_way_def)
qed (simp_all add: three_way_def)

lemma lexicographic_compare_first_difference:
  "k < min (length xs) (length ys) \<Longrightarrow> \<forall>j < k. xs ! j = ys ! j \<Longrightarrow> xs ! k \<noteq> ys ! k \<Longrightarrow>
   lexicographic_compare xs ys = three_way (xs ! k) (ys ! k)"
proof (induction xs ys arbitrary: k rule: lexicographic_compare.induct)
  case (4 x xs y ys)
  show ?case
  proof (cases k)
    case 0
    then show ?thesis using "4.prems" by simp
  next
    case (Suc k')
    have "x = y" using "4.prems"(2) Suc by (auto dest: spec [of _ 0])
    moreover have "\<forall>j < k'. xs ! j = ys ! j"
      using "4.prems"(2) Suc by (auto dest: spec [of _ "Suc j" for j])
    ultimately show ?thesis
      using "4.IH" [of k'] "4.prems" Suc by simp
  qed
qed simp_all

lemma size_t_less_succ: "(i::size_t) < n \<Longrightarrow> unat (i + 1) = Suc (unat i)"
  by (rule size_t_succ) auto

lemma drop_elements:
  assumes "valid w this" "i < m_size (objs w this)"
  shows "drop (unat i) (elements w this) =
     elements w this ! unat i # drop (unat (i + 1)) (elements w this)"
proof -
  have "unat i < length (elements w this)"
    using assms by (simp add: length_elements word_less_nat_alt)
  then show ?thesis
    using assms(2) by (simp add: size_t_less_succ Cons_nth_drop_Suc)
qed

lemma spaceship_loop_ok:
  fixes w :: "('a::linorder) world"
  assumes "valid w a" "valid w b"
    "minSize = min (m_size (objs w a)) (m_size (objs w b))" "i \<le> minSize"
  shows "spaceship_loop a b minSize i w =
     (Inr (lexicographic_compare (drop (unat i) (elements w a)) (drop (unat i) (elements w b))), w)"
  using assms(4)
proof (induction "unat minSize - unat i" arbitrary: i)
  case 0
  then have i: "i = minSize"
    by (simp add: word_le_nat_alt word_unat_eq_iff)
  have la: "length (elements w a) = unat (m_size (objs w a))"
    and lb: "length (elements w b) = unat (m_size (objs w b))"
    using assms(1,2) by (simp_all add: length_elements)
  have m: "unat minSize = min (unat (m_size (objs w a))) (unat (m_size (objs w b)))"
    using assms(3) by (simp add: min_def word_le_nat_alt)
  have "lexicographic_compare (drop (unat minSize) (elements w a)) (drop (unat minSize) (elements w b))
      = three_way (m_size (objs w a)) (m_size (objs w b))"
  proof (cases "m_size (objs w a) \<le> m_size (objs w b)")
    case True
    then have "drop (unat minSize) (elements w a) = []"
      using m la by (simp add: word_le_nat_alt)
    moreover have "drop (unat minSize) (elements w b) = [] \<longleftrightarrow> m_size (objs w a) = m_size (objs w b)"
      using m lb True by (auto simp: word_le_nat_alt word_unat_eq_iff)
    ultimately show ?thesis
      using True by (auto simp: lexicographic_compare_Nil three_way_def)
  next
    case False
    then have "drop (unat minSize) (elements w b) = []"
      using m lb by (simp add: word_le_nat_alt)
    moreover have "drop (unat minSize) (elements w a) \<noteq> []"
      using m la False by (auto simp: word_le_nat_alt)
    ultimately show ?thesis
      using False by (auto simp: lexicographic_compare_Nil three_way_def)
  qed
  then show ?case
    unfolding i
    by (subst spaceship_loop.simps) (simp add: bind_apply get_size_def return_def)
next
  case (Suc k)
  then have lt: "i < minSize"
    by (simp add: word_less_nat_alt)
  then have ia: "i < m_size (objs w a)" and ib: "i < m_size (objs w b)"
    using assms(3) by simp_all
  have step: "unat (i + 1) = Suc (unat i)"
    using lt by (rule size_t_less_succ)
  have le: "i + 1 \<le> minSize"
    using lt step by (simp add: word_le_nat_alt word_less_nat_alt)
  have k: "k = unat minSize - unat (i + 1)"
    using Suc.hyps(2) step by simp
  note IH = Suc.hyps(1) [OF k le]
  have x: "load (ptr_add (m_data (objs w a)) i) w = (Inr (elements w a ! unat i), w)"
    using assms(1) ia by (rule load_element)
  have y: "load (ptr_add (m_data (objs w b)) i) w = (Inr (elements w b ! unat i), w)"
    using assms(2) ib by (rule load_element)
  show ?case
    apply (subst spaceship_loop.simps)
    using lt x y IH
    by (simp add: bind_apply get_data_def return_def Let_def
        drop_elements [OF assms(1) ia] drop_elements [OF assms(2) ib])
qed

lemma operator_spaceship_ok:
  fixes w :: "('a::linorder) world"
  assumes "valid w a" "valid w b"
  shows "operator_spaceship a b w = (Inr (lexicographic_compare (elements w a) (elements w b)), w)"
  using spaceship_loop_ok [OF assms refl, of 0]
  by (simp add: operator_spaceship_def bind_apply get_size_def)

lemma eq_loop_ok:
  assumes "valid w a" "valid w b" "m_size (objs w a) = m_size (objs w b)" "i \<le> m_size (objs w a)"
  shows "eq_loop a b i w =
     (Inr (drop (unat i) (elements w a) = drop (unat i) (elements w b)), w)"
  using assms(4)
proof (induction "unat (m_size (objs w a)) - unat i" arbitrary: i)
  case 0
  then have i: "i = m_size (objs w a)"
    by (simp add: word_le_nat_alt word_unat_eq_iff)
  have "drop (unat i) (elements w a) = []" "drop (unat i) (elements w b) = []"
    using assms(1,2,3) i by (simp_all add: length_elements)
  then show ?case
    using i by (subst eq_loop.simps) (simp add: bind_apply get_size_def return_def)
next
  case (Suc k)
  then have ia: "i < m_size (objs w a)"
    by (simp add: word_less_nat_alt)
  then have ib: "i < m_size (objs w b)"
    using assms(3) by simp
  have step: "unat (i + 1) = Suc (unat i)"
    using ia by (rule size_t_less_succ)
  have le: "i + 1 \<le> m_size (objs w a)"
    using ia step by (simp add: word_le_nat_alt word_less_nat_alt)
  have k: "k = unat (m_size (objs w a)) - unat (i + 1)"
    using Suc.hyps(2) step by simp
  note IH = Suc.hyps(1) [OF k le]
  have x: "load (ptr_add (m_data (objs w a)) i) w = (Inr (elements w a ! unat i), w)"
    using assms(1) ia by (rule load_element)
  have y: "load (ptr_add (m_data (objs w b)) i) w = (Inr (elements w b ! unat i), w)"
    using assms(2) ib by (rule load_element)
  show ?case
    apply (subst eq_loop.simps)
    using ia x y IH
    by (simp add: bind_apply get_data_def get_size_def return_def
        drop_elements [OF assms(1) ia] drop_elements [OF assms(2) ib])
qed

lemma operator_eq_ok:
  assumes "valid w a" "valid w b"
  shows "operator_eq a b w = (Inr (elements w a = elements w b), w)"
proof (cases "m_size (objs w a) = m_size (objs w b)")
  case True
  then show ?thesis
    using eq_loop_ok [OF assms True, of 0]
    by (simp add: operator_eq_def bind_apply get_size_def)
next
  case False
  then have "length (elements w a) \<noteq> length (elements w b)"
    using assms by (simp add: length_elements word_unat_eq_iff)
  then have "elements w a \<noteq> elements w b" by auto
  then show ?thesis
    using False by (simp add: operator_eq_def bind_apply get_size_def return_def)
qed

subsection \<open>Removal\<close>

lemma heap_update_twice:
  "w\<lparr>heap := (heap w)(a \<mapsto> xs)\<rparr>\<lparr>heap := (heap (w\<lparr>heap := (heap w)(a \<mapsto> xs)\<rparr>))(a \<mapsto> ys)\<rparr> =
   w\<lparr>heap := (heap w)(a \<mapsto> ys)\<rparr>"
  by simp

lemma RemoveAll_loop_ok:
  assumes "m_data (objs w this) = Ptr a 0" "heap w a = Some blk"
    "unat (m_size (objs w this)) \<le> length blk"
    "write \<le> read" "read \<le> m_size (objs w this)"
    "\<forall>i. unat read \<le> i \<and> i < unat (m_size (objs w this)) \<longrightarrow> blk ! i \<noteq> None"
  shows "\<exists>blk' write'. RemoveAll_loop this pred read write w =
       (Inr write', w\<lparr>heap := (heap w)(a \<mapsto> blk')\<rparr>) \<and>
     length blk' = length blk \<and>
     unat write' = unat write +
       length (filter (\<lambda>x. \<not> pred x) (map the (drop (unat read) (take (unat (m_size (objs w this))) blk)))) \<and>
     take (unat write') blk' = take (unat write) blk @
       map Some (filter (\<lambda>x. \<not> pred x) (map the (drop (unat read) (take (unat (m_size (objs w this))) blk))))"
  using assms
proof (induction "unat (m_size (objs w this)) - unat read" arbitrary: read "write" w blk)
  case 0
  then have "\<not> read < m_size (objs w this)"
    by (simp add: word_less_nat_alt)
  moreover have "drop (unat read) (take (unat (m_size (objs w this))) blk) = []"
    using 0 by simp
  moreover have "w\<lparr>heap := (heap w)(a \<mapsto> blk)\<rparr> = w"
    using "0.prems"(2) by (simp add: fun_upd_idem)
  ultimately have "RemoveAll_loop this pred read write w =
       (Inr write, w\<lparr>heap := (heap w)(a \<mapsto> blk)\<rparr>) \<and>
     length blk = length blk \<and>
     unat write = unat write +
       length (filter (\<lambda>x. \<not> pred x) (map the (drop (unat read) (take (unat (m_size (objs w this))) blk)))) \<and>
     take (unat write) blk = take (unat write) blk @
       map Some (filter (\<lambda>x. \<not> pred x) (map the (drop (unat read) (take (unat (m_size (objs w this))) blk))))"
    by (subst RemoveAll_loop.simps) (simp add: bind_apply get_size_def return_def)
  then show ?case by blast
next
  case (Suc k)
  let ?n = "unat (m_size (objs w this))"
  let ?r = "unat read"
  let ?wi = "unat write"
  have lt: "read < m_size (objs w this)"
    using Suc.hyps(2) by (simp add: word_less_nat_alt)
  then have r: "?r < ?n" "?r < length blk"
    using Suc.prems(3) by (simp_all add: word_less_nat_alt)
  have wi: "?wi \<le> ?r"
    using Suc.prems(4) by (simp add: word_le_nat_alt)
  have sr: "unat (read + 1) = Suc ?r"
    using lt by (rule size_t_less_succ)
  have "write < m_size (objs w this)"
    using Suc.prems(4) lt by simp
  then have sw: "unat (write + 1) = Suc ?wi"
    by (rule size_t_less_succ)
  obtain v where v: "blk ! ?r = Some v"
    using Suc.prems(6) r by auto
  have ld: "load (Ptr a ?r) w = (Inr v, w)"
    using Suc.prems(2) r(2) v by (rule load_ok)
  have dr: "drop ?r (take ?n blk) = Some v # drop (Suc ?r) (take ?n blk)"
    using r v by (simp add: Cons_nth_drop_Suc [symmetric])
  let ?rest = "filter (\<lambda>x. \<not> pred x) (map the (drop (Suc ?r) (take ?n blk)))"
  have unfold: "RemoveAll_loop this pred read write w =
      (if \<not> pred v then
         bind (if write \<noteq> read then
                 bind (load (Ptr a ?r)) (\<lambda>v'.
                 bind (construct_at (Ptr a ?wi) v') (\<lambda>_.
                 destroy_at (Ptr a ?r)))
               else return ()) (\<lambda>_.
         RemoveAll_loop this pred (read + 1) (write + 1)) w
       else
         bind (destroy_at (Ptr a ?r)) (\<lambda>_.
         RemoveAll_loop this pred (read + 1) write) w)"
    apply (subst RemoveAll_loop.simps)
    using lt Suc.prems(1) ld
    by (simp add: bind_apply get_size_def get_data_def ptr_add_def)
  have k: "k = ?n - unat (read + 1)"
    using Suc.hyps(2) sr by simp
  have le': "read + 1 \<le> m_size (objs w this)"
    using r(1) sr by (simp add: word_le_nat_alt)
  show ?case
  proof (cases "pred v")
    case True
    let ?blk2 = "blk[?r := None]"
    let ?w1 = "w\<lparr>heap := (heap w)(a \<mapsto> ?blk2)\<rparr>"
    have d: "destroy_at (Ptr a ?r) w = (Inr (), ?w1)"
      using Suc.prems(2) r(2) v by (rule destroy_at_ok)
    have "\<exists>blk' write'. RemoveAll_loop this pred (read + 1) write ?w1 =
         (Inr write', ?w1\<lparr>heap := (heap ?w1)(a \<mapsto> blk')\<rparr>) \<and>
       length blk' = length ?blk2 \<and>
       unat write' = unat write +
         length (filter (\<lambda>x. \<not> pred x) (map the (drop (unat (read + 1)) (take (unat (m_size (objs ?w1 this))) ?blk2)))) \<and>
       take (unat write') blk' = take (unat write) ?blk2 @
         map Some (filter (\<lambda>x. \<not> pred x) (map the (drop (unat (read + 1)) (take (unat (m_size (objs ?w1 this))) ?blk2))))"
      apply (rule Suc.hyps(1))
      using k Suc.prems le' sr wi by (auto simp: word_le_nat_alt)
    moreover have "drop (Suc ?r) (take ?n ?blk2) = drop (Suc ?r) (take ?n blk)"
      by (simp add: take_update_swap drop_update_cancel)
    moreover have "take ?wi ?blk2 = take ?wi blk"
      using wi by simp
    ultimately obtain blk' write' where res:
      "RemoveAll_loop this pred (read + 1) write ?w1 = (Inr write', w\<lparr>heap := (heap w)(a \<mapsto> blk')\<rparr>)"
      "length blk' = length blk"
      "unat write' = ?wi + length ?rest"
      "take (unat write') blk' = take ?wi blk @ map Some ?rest"
      unfolding sr heap_update_twice by auto
    have "RemoveAll_loop this pred read write w = (Inr write', w\<lparr>heap := (heap w)(a \<mapsto> blk')\<rparr>)"
      unfolding unfold using True d res(1) by (simp add: bind_apply)
    then show ?thesis
      using res(2,3,4) True dr by auto
  next
    case False
    show ?thesis
    proof (cases "write = read")
      case same: True
      have "\<exists>blk' write'. RemoveAll_loop this pred (read + 1) (write + 1) w =
           (Inr write', w\<lparr>heap := (heap w)(a \<mapsto> blk')\<rparr>) \<and>
         length blk' = length blk \<and>
         unat write' = unat (write + 1) +
           length (filter (\<lambda>x. \<not> pred x) (map the (drop (unat (read + 1)) (take (unat (m_size (objs w this))) blk)))) \<and>
         take (unat write') blk' = take (unat (write + 1)) blk @
           map Some (filter (\<lambda>x. \<not> pred x) (map the (drop (unat (read + 1)) (take (unat (m_size (objs w this))) blk))))"
        apply (rule Suc.hyps(1))
        using k Suc.prems le' sr same by (auto simp: word_le_nat_alt)
      then obtain blk' write' where res:
        "RemoveAll_loop this pred (read + 1) (write + 1) w = (Inr write', w\<lparr>heap := (heap w)(a \<mapsto> blk')\<rparr>)"
        "length blk' = length blk"
        "unat write' = Suc ?wi + length ?rest"
        "take (unat write') blk' = take (Suc ?wi) blk @ map Some ?rest"
        unfolding sr sw by auto
      have "take (Suc ?wi) blk = take ?wi blk @ [Some v]"
        using same r(2) v by (simp add: take_Suc_conv_app_nth)
      moreover have "RemoveAll_loop this pred read write w =
          (Inr write', w\<lparr>heap := (heap w)(a \<mapsto> blk')\<rparr>)"
        unfolding unfold using False same res(1) by (simp add: bind_apply return_def)
      ultimately show ?thesis
        using res(2,3,4) False dr by auto
    next
      case diff: False
      then have wlt: "?wi < ?r"
        using wi by (simp add: word_unat_eq_iff)
      let ?blk1 = "blk[?wi := Some v]"
      let ?blk2 = "?blk1[?r := None]"
      let ?w0 = "w\<lparr>heap := (heap w)(a \<mapsto> ?blk1)\<rparr>"
      let ?w1 = "w\<lparr>heap := (heap w)(a \<mapsto> ?blk2)\<rparr>"
      have c: "construct_at (Ptr a ?wi) v w = (Inr (Ptr a ?wi), ?w0)"
        using Suc.prems(2) wlt r(2) by (intro construct_at_ok) simp_all
      have "destroy_at (Ptr a ?r) ?w0 = (Inr (), ?w0\<lparr>heap := (heap ?w0)(a \<mapsto> ?blk1[?r := None])\<rparr>)"
        using r(2) v wlt by (intro destroy_at_ok [where v = v]) simp_all
      then have d: "destroy_at (Ptr a ?r) ?w0 = (Inr (), ?w1)"
        by simp
      have "\<exists>blk' write'. RemoveAll_loop this pred (read + 1) (write + 1) ?w1 =
           (Inr write', ?w1\<lparr>heap := (heap ?w1)(a \<mapsto> blk')\<rparr>) \<and>
         length blk' = length ?blk2 \<and>
         unat write' = unat (write + 1) +
           length (filter (\<lambda>x. \<not> pred x) (map the (drop (unat (read + 1)) (take (unat (m_size (objs ?w1 this))) ?blk2)))) \<and>
         take (unat write') blk' = take (unat (write + 1)) ?blk2 @
           map Some (filter (\<lambda>x. \<not> pred x) (map the (drop (unat (read + 1)) (take (unat (m_size (objs ?w1 this))) ?blk2))))"
        apply (rule Suc.hyps(1))
        using k Suc.prems le' sr sw wi wlt by (auto simp: word_le_nat_alt)
      moreover have "drop (Suc ?r) (take ?n ?blk2) = drop (Suc ?r) (take ?n blk)"
        using wlt by (simp add: take_update_swap drop_update_cancel)
      ultimately obtain blk' write' where res:
        "RemoveAll_loop this pred (read + 1) (write + 1) ?w1 = (Inr write', w\<lparr>heap := (heap w)(a \<mapsto> blk')\<rparr>)"
        "length blk' = length blk"
        "unat write' = Suc ?wi + length ?rest"
        "take (unat write') blk' = take (Suc ?wi) ?blk2 @ map Some ?rest"
        unfolding sr sw heap_update_twice by auto
      have "take (Suc ?wi) ?blk2 = take ?wi blk @ [Some v]"
        using wlt r(2) by (simp add: take_Suc_conv_app_nth)
      moreover have "RemoveAll_loop this pred read write w =
          (Inr write', w\<lparr>heap := (heap w)(a \<mapsto> blk')\<rparr>)"
        unfolding unfold using False diff ld c d res(1) by (simp add: bind_apply)
      ultimately show ?thesis
        using res(2,3,4) False dr by auto
    qed
  qed
qed

lemma RemoveAll_ok:
  assumes "valid w this"
  shows "\<exists>r w'. RemoveAll this pred w = (Inr r, w') \<and> valid w' this \<and>
     elements w' this = filter (\<lambda>x. \<not> pred x) (elements w this) \<and>
     unat r = length (filter pred (elements w this)) \<and>
     m_capacity (objs w' this) = m_capacity (objs w this) \<and>
     m_data (objs w' this) = m_data (objs w this)"
  using assms
proof (cases rule: valid_cases)
  case empty
  have "RemoveAll_loop this pred 0 0 w = (Inr 0, w)"
    using empty by (subst RemoveAll_loop.simps) (simp add: bind_apply get_size_def return_def)
  then have "RemoveAll this pred w = (Inr 0, w\<lparr>objs := (objs w)(this := (objs w this)\<lparr>m_size := 0\<rparr>)\<rparr>)"
    using empty by (simp add: RemoveAll_def bind_apply field_defs return_def)
  moreover have "valid (w\<lparr>objs := (objs w)(this := (objs w this)\<lparr>m_size := 0\<rparr>)\<rparr>) this"
    using empty by (simp add: valid_def)
  ultimately show ?thesis
    using empty by (simp add: elements_def)
next
  case (storage a blk)
  let ?n = "unat (m_size (objs w this))"
  let ?kept = "filter (\<lambda>x. \<not> pred x) (map the (drop (unat (0::size_t)) (take ?n blk)))"
  have le: "?n \<le> length blk"
    using storage by (simp add: word_le_nat_alt)
  have "\<exists>blk' write'. RemoveAll_loop this pred 0 0 w =
       (Inr write', w\<lparr>heap := (heap w)(a \<mapsto> blk')\<rparr>) \<and>
     length blk' = length blk \<and>
     unat write' = unat (0::size_t) + length ?kept \<and>
     take (unat write') blk' = take (unat (0::size_t)) blk @ map Some ?kept"
    by (rule RemoveAll_loop_ok) (use storage le in auto)
  then obtain blk' write' where res:
    "RemoveAll_loop this pred 0 0 w = (Inr write', w\<lparr>heap := (heap w)(a \<mapsto> blk')\<rparr>)"
    "length blk' = length blk"
    "unat write' = length (filter (\<lambda>x. \<not> pred x) (elements w this))"
    "take (unat write') blk' = map Some (filter (\<lambda>x. \<not> pred x) (elements w this))"
    using storage(1,2) by (auto simp: elements_def)
  let ?v = "w\<lparr>heap := (heap w)(a \<mapsto> blk'),
               objs := (objs w)(this := (objs w this)\<lparr>m_size := write'\<rparr>)\<rparr>"
  have run: "RemoveAll this pred w = (Inr (m_size (objs w this) - write'), ?v)"
    using res(1) by (simp add: RemoveAll_def bind_apply field_defs return_def)
  have len: "length (elements w this) = ?n"
    using assms by (rule length_elements)
  have wle: "unat write' \<le> ?n"
    using res(3) len length_filter_le [of "\<lambda>x. \<not> pred x" "elements w this"] by simp
  then have wle': "write' \<le> m_size (objs w this)"
    by (simp add: word_le_nat_alt)
  have "length (filter pred (elements w this)) + length (filter (\<lambda>x. \<not> pred x) (elements w this)) = ?n"
    using sum_length_filter_compl [of pred "elements w this"] len by simp
  then have ret: "unat (m_size (objs w this) - write') = length (filter pred (elements w this))"
    using wle' res(3) by (simp add: unat_sub)
  have live: "\<forall>i < unat write'. blk' ! i \<noteq> None"
  proof (intro allI impI)
    fix i assume i: "i < unat write'"
    then have "take (unat write') blk' ! i = blk' ! i" by simp
    moreover have "take (unat write') blk' ! i \<noteq> None"
      using i res(3) unfolding res(4) by simp
    ultimately show "blk' ! i \<noteq> None" by simp
  qed
  have v: "valid ?v this"
    apply (rule valid_storageI [where a = a and blk = blk'])
    using storage res(2) wle' live by auto
  have e: "elements ?v this = filter (\<lambda>x. \<not> pred x) (elements w this)"
    using storage(1) res(4) by (simp add: elements_def comp_def)
  show ?thesis
    using run v e ret by simp
qed

lemma arr_12345_eq:
  "arr_12345 = \<lparr>heap = (\<lambda>_. None)(0 \<mapsto> [Some 1, Some 2, Some 3, Some 4, Some 5],
       1 \<mapsto> [Some 1, Some 2, Some 3, Some 4, Some 5]),
     next_block = 2,
     objs = (\<lambda>_. \<lparr>m_data = nullptr, m_size = 0, m_capacity = 0\<rparr>)
              (0 := \<lparr>m_data = Ptr 1 0, m_size = 5, m_capacity = 5\<rparr>),
     sizeof_T = 4, new_fails = (\<lambda>_ _. False)\<rparr>"
  by (simp add: arr_12345_def world0_def braced_init_list_def DynamicArray_ilist_def
      DynamicArray_default_def assign_def replaceStorage_def exec_defs numeral_loops replicate_numeral)

lemma valid_arr_12345: "valid arr_12345 0"
  by (simp add: arr_12345_eq valid_def)

lemma elements_arr_12345: "elements arr_12345 0 = [1, 2, 3, 4, 5]"
  by (simp add: arr_12345_eq elements_def)

lemma bind_get_data: "bind (get_data this) f w = f (m_data (objs w this)) w"
  by (simp add: bind_apply get_data_def)

lemma bind_get_size: "bind (get_size this) f w = f (m_size (objs w this)) w"
  by (simp add: bind_apply get_size_def)

lemma bind_get_capacity: "bind (get_capacity this) f w = f (m_capacity (objs w this)) w"
  by (simp add: bind_apply get_capacity_def)

lemma bind_checkRange:
  "bind (checkRange this i allowEnd) f w =
     (if m_size (objs w this) + (if allowEnd then 1 else 0) \<le> i then (Inl out_of_range, w) else f () w)"
  by (simp add: bind_apply checkRange_apply)

lemma bind_fails: "fst (m w) = Inl e \<Longrightarrow> fst (bind m f w) = Inl e"
  by (cases "m w") (auto simp: bind_apply)

lemma RemoveRange_out_of_range:
  "m_size (objs w this) \<le> index \<Longrightarrow> RemoveRange this index count w = (Inl out_of_range, w)"
  by (simp add: RemoveRange_def bind_apply checkRange_apply)

lemma destroy_n_past_end:
  "heap w a = Some blk \<Longrightarrow> off \<le> length blk \<Longrightarrow> length blk < off + n \<Longrightarrow>
   \<forall>i. off \<le> i \<and> i < length blk \<longrightarrow> blk ! i \<noteq> None \<Longrightarrow>
   fst (destroy_n (Ptr a off) n w) = Inl undefined_behaviour"
proof (induction n arbitrary: w blk off)
  case 0
  then show ?case by simp
next
  case (Suc n)
  show ?case
  proof (cases "off < length blk")
    case False
    then show ?thesis
      using Suc.prems(1) by (simp add: bind_apply destroy_at_def slot_def)
  next
    case True
    then obtain v where v: "blk ! off = Some v"
      using Suc.prems(4) by auto
    let ?w1 = "w\<lparr>heap := (heap w)(a \<mapsto> blk[off := None])\<rparr>"
    have d: "destroy_at (Ptr a off) w = (Inr (), ?w1)"
      using Suc.prems(1) True v by (rule destroy_at_ok)
    have "fst (destroy_n (Ptr a (Suc off)) n ?w1) = Inl undefined_behaviour"
      apply (rule Suc.IH [where blk = "blk[off := None]"])
      using Suc.prems True by auto
    then show ?thesis
      using d by (simp add: bind_apply ptr_add_def)
  qed
qed

lemma unat_add2:
  "unat (x::size_t) + unat y < 18446744073709551616 \<Longrightarrow> unat (x + y) = unat x + unat y"
  by (simp add: unat_plus_if')

lemma unat_add3:
  "unat (x::size_t) + unat y + unat z < 18446744073709551616 \<Longrightarrow>
   unat (x + y + z) = unat x + unat y + unat z"
  by (simp add: unat_add2)

lemma shiftLeft_loop_ok:
  assumes "m_data (objs w this) = Ptr a 0" "heap w a = Some blk"
    "unat index + unat count + unat moveCount \<le> length blk" "length blk < 18446744073709551616"
    "0 < unat count" "i \<le> moveCount"
    "\<forall>j. unat i \<le> j \<and> j < unat moveCount \<longrightarrow> blk ! (unat index + unat count + j) \<noteq> None"
  shows "\<exists>blk'. shiftLeft_loop this index count moveCount i w =
       (Inr (), w\<lparr>heap := (heap w)(a \<mapsto> blk')\<rparr>) \<and>
     length blk' = length blk \<and>
     take (unat index + unat i) blk' = take (unat index + unat i) blk \<and>
     take (unat moveCount - unat i) (drop (unat index + unat i) blk') =
       take (unat moveCount - unat i) (drop (unat index + unat count + unat i) blk)"
  using assms
proof (induction "unat moveCount - unat i" arbitrary: i w blk)
  case 0
  then have "\<not> i < moveCount"
    by (simp add: word_less_nat_alt)
  moreover have "w\<lparr>heap := (heap w)(a \<mapsto> blk)\<rparr> = w"
    using "0.prems"(2) by (simp add: fun_upd_idem)
  ultimately have "shiftLeft_loop this index count moveCount i w =
       (Inr (), w\<lparr>heap := (heap w)(a \<mapsto> blk)\<rparr>) \<and>
     length blk = length blk \<and>
     take (unat index + unat i) blk = take (unat index + unat i) blk \<and>
     take (unat moveCount - unat i) (drop (unat index + unat i) blk) =
       take (unat moveCount - unat i) (drop (unat index + unat count + unat i) blk)"
    using "0.hyps" by (subst shiftLeft_loop.simps) (simp add: return_def)
  then show ?case
    by blast
next
  case (Suc k)
  let ?idx = "unat index"
  let ?c = "unat count"
  let ?m = "unat moveCount"
  let ?i = "unat i"
  have lt: "i < moveCount"
    using Suc.hyps(2) by (simp add: word_less_nat_alt)
  then have i: "?i < ?m"
    by (simp add: word_less_nat_alt)
  have si: "unat (i + 1) = Suc ?i"
    using lt by (rule size_t_less_succ)
  have src: "unat (index + count + i) = ?idx + ?c + ?i"
    using Suc.prems(3,4) i by (intro unat_add3) simp
  have dst: "unat (index + i) = ?idx + ?i"
    using Suc.prems(3,4) i by (intro unat_add2) simp
  have bound: "?idx + ?c + ?i < length blk"
    using Suc.prems(3) i by simp
  obtain v where v: "blk ! (?idx + ?c + ?i) = Some v"
    using Suc.prems(7) i by auto
  let ?blk1 = "blk[?idx + ?i := Some v]"
  let ?blk2 = "?blk1[?idx + ?c + ?i := None]"
  let ?w0 = "w\<lparr>heap := (heap w)(a \<mapsto> ?blk1)\<rparr>"
  let ?w1 = "w\<lparr>heap := (heap w)(a \<mapsto> ?blk2)\<rparr>"
  have ld: "load (Ptr a (?idx + ?c + ?i)) w = (Inr v, w)"
    using Suc.prems(2) bound v by (rule load_ok)
  have c: "construct_at (Ptr a (?idx + ?i)) v w = (Inr (Ptr a (?idx + ?i)), ?w0)"
    using Suc.prems(2) bound by (intro construct_at_ok) simp_all
  have "destroy_at (Ptr a (?idx + ?c + ?i)) ?w0 =
      (Inr (), ?w0\<lparr>heap := (heap ?w0)(a \<mapsto> ?blk1[?idx + ?c + ?i := None])\<rparr>)"
    using bound v Suc.prems(5) by (intro destroy_at_ok [where v = v]) simp_all
  then have d: "destroy_at (Ptr a (?idx + ?c + ?i)) ?w0 = (Inr (), ?w1)"
    by simp
  have unfold: "shiftLeft_loop this index count moveCount i w =
      shiftLeft_loop this index count moveCount (i + 1) ?w1"
    apply (subst shiftLeft_loop.simps)
    using lt Suc.prems(1) ld c d
    by (simp add: bind_apply get_data_def ptr_add_def src dst)
  have k: "k = ?m - unat (i + 1)"
    using Suc.hyps(2) si by simp
  have le': "i + 1 \<le> moveCount"
    using i si by (simp add: word_le_nat_alt)
  have "\<exists>blk'. shiftLeft_loop this index count moveCount (i + 1) ?w1 =
       (Inr (), ?w1\<lparr>heap := (heap ?w1)(a \<mapsto> blk')\<rparr>) \<and>
     length blk' = length ?blk2 \<and>
     take (unat index + unat (i + 1)) blk' = take (unat index + unat (i + 1)) ?blk2 \<and>
     take (unat moveCount - unat (i + 1)) (drop (unat index + unat (i + 1)) blk') =
       take (unat moveCount - unat (i + 1)) (drop (unat index + unat count + unat (i + 1)) ?blk2)"
    apply (rule Suc.hyps(1))
    using k Suc.prems le' si by (auto simp: nth_list_update)
  moreover have "drop (Suc (?idx + ?c + ?i)) ?blk2 = drop (Suc (?idx + ?c + ?i)) blk"
    by (simp add: drop_update_cancel)
  ultimately obtain blk' where res:
    "shiftLeft_loop this index count moveCount (i + 1) ?w1 = (Inr (), w\<lparr>heap := (heap w)(a \<mapsto> blk')\<rparr>)"
    "length blk' = length blk"
    "take (Suc (?idx + ?i)) blk' = take (Suc (?idx + ?i)) ?blk2"
    "take (?m - Suc ?i) (drop (Suc (?idx + ?i)) blk') = take (?m - Suc ?i) (drop (Suc (?idx + ?c + ?i)) blk)"
    unfolding si heap_update_twice by auto
  have t2: "take (Suc (?idx + ?i)) ?blk2 = take (?idx + ?i) blk @ [Some v]"
    using bound Suc.prems(5) by (simp add: take_Suc_conv_app_nth)
  have lb: "?idx + ?i < length blk'"
    using bound res(2) by simp
  have t1: "take (Suc (?idx + ?i)) blk' = take (?idx + ?i) blk' @ [blk' ! (?idx + ?i)]"
    using lb by (simp add: take_Suc_conv_app_nth)
  have p1: "take (?idx + ?i) blk' = take (?idx + ?i) blk" and p2: "blk' ! (?idx + ?i) = Some v"
    using res(3) t1 t2 by simp_all
  have "take (?m - ?i) (drop (?idx + ?i) blk') =
      blk' ! (?idx + ?i) # take (?m - Suc ?i) (drop (Suc (?idx + ?i)) blk')"
    using lb i by (simp add: Cons_nth_drop_Suc [symmetric] take_Suc_Cons [symmetric] Suc_diff_Suc
        del: take_Suc_Cons)
  also have "\<dots> = Some v # take (?m - Suc ?i) (drop (Suc (?idx + ?c + ?i)) blk)"
    using p2 res(4) by simp
  also have "\<dots> = take (?m - ?i) (drop (?idx + ?c + ?i) blk)"
    using bound i v by (simp add: Cons_nth_drop_Suc [symmetric] take_Suc_Cons [symmetric] Suc_diff_Suc
        del: take_Suc_Cons)
  finally have p3: "take (?m - ?i) (drop (?idx + ?i) blk') = take (?m - ?i) (drop (?idx + ?c + ?i) blk)" .
  show ?case
    using unfold res(1,2) p1 p3 by auto
qed

lemma shiftLeft_ok:
  assumes "m_data (objs w this) = Ptr a 0" "heap w a = Some blk"
    "unat (m_size (objs w this)) \<le> length blk" "length blk < 18446744073709551616"
    "0 < unat count" "unat index + unat count \<le> unat (m_size (objs w this))"
    "\<forall>j. unat index + unat count \<le> j \<and> j < unat (m_size (objs w this)) \<longrightarrow> blk ! j \<noteq> None"
  shows "\<exists>blk'. shiftLeft this index count w = (Inr (), w\<lparr>heap := (heap w)(a \<mapsto> blk')\<rparr>) \<and>
     length blk' = length blk \<and>
     take (unat index) blk' = take (unat index) blk \<and>
     take (unat (m_size (objs w this)) - unat index - unat count) (drop (unat index) blk') =
       take (unat (m_size (objs w this)) - unat index - unat count) (drop (unat index + unat count) blk)"
proof -
  let ?n = "unat (m_size (objs w this))"
  let ?mc = "m_size (objs w this) - index - count"
  have i: "index \<le> m_size (objs w this)"
    using assms(6) by (simp add: word_le_nat_alt)
  then have u1: "unat (m_size (objs w this) - index) = ?n - unat index"
    by (rule unat_sub)
  have "count \<le> m_size (objs w this) - index"
    using assms(6) u1 by (simp add: word_le_nat_alt)
  then have m: "unat ?mc = ?n - unat index - unat count"
    using u1 by (simp add: unat_sub)
  have "\<exists>blk'. shiftLeft_loop this index count ?mc 0 w =
       (Inr (), w\<lparr>heap := (heap w)(a \<mapsto> blk')\<rparr>) \<and>
     length blk' = length blk \<and>
     take (unat index + unat (0::size_t)) blk' = take (unat index + unat (0::size_t)) blk \<and>
     take (unat ?mc - unat (0::size_t)) (drop (unat index + unat (0::size_t)) blk') =
       take (unat ?mc - unat (0::size_t)) (drop (unat index + unat count + unat (0::size_t)) blk)"
    apply (rule shiftLeft_loop_ok)
    using assms m by auto
  then show ?thesis
    by (simp add: shiftLeft_def bind_get_size m)
qed

lemma RemoveRange_ok:
  assumes "valid w this" "index < m_size (objs w this)"
    "unat index + unat count < 18446744073709551616"
  shows "\<exists>w'. RemoveRange this index count w = (Inr (), w') \<and> valid w' this \<and>
     elements w' this = take (unat index) (elements w this) @
       drop (unat index + unat count) (elements w this) \<and>
     unat (m_size (objs w' this)) = unat (m_size (objs w this)) -
       min (unat count) (unat (m_size (objs w this)) - unat index) \<and>
     m_capacity (objs w' this) = m_capacity (objs w this)"
proof (cases "count = 0")
  case True
  then show ?thesis
    using assms(1,2) by (simp add: RemoveRange_def bind_checkRange return_def)
next
  case False
  from assms(1) show ?thesis
  proof (cases rule: valid_cases)
    case empty
    then show ?thesis using assms(2) by simp
  next
    case (storage a blk)
    let ?n = "unat (m_size (objs w this))"
    let ?idx = "unat index"
    let ?cnt = "if index + count > m_size (objs w this) then m_size (objs w this) - index else count"
    let ?c = "min (unat count) (?n - ?idx)"
    have idx: "?idx < ?n"
      using assms(2) by (simp add: word_less_nat_alt)
    have le: "?n \<le> length blk"
      using storage by (simp add: word_le_nat_alt)
    have bound: "length blk < 18446744073709551616"
      using storage(6) unsigned_less [of "m_capacity (objs w this)", where 'a = nat] by simp
    have sum: "unat (index + count) = ?idx + unat count"
      using assms(3) by (rule unat_add2)
    have "unat (m_size (objs w this) - index) = ?n - ?idx"
      using assms(2) by (intro unat_sub) simp
    then have c: "unat ?cnt = ?c"
      using sum by (auto simp: word_less_nat_alt min_def)
    have c0: "0 < ?c"
      using False idx by (simp add: unat_gt_0)
    have cle: "?idx + ?c \<le> ?n"
      using idx by simp
    let ?blk1 = "take ?idx blk @ replicate ?c None @ drop (?idx + ?c) blk"
    let ?w1 = "w\<lparr>heap := (heap w)(a \<mapsto> ?blk1)\<rparr>"
    have d: "destroy_n (Ptr a ?idx) ?c w = (Inr (), ?w1)"
      apply (rule destroy_n_ok)
      using storage(2,7) le cle by auto
    have len1: "length ?blk1 = length blk"
      using le cle by simp
    have t1: "take ?idx ?blk1 = take ?idx blk"
      using le idx by simp
    have d1: "drop (?idx + ?c) ?blk1 = drop (?idx + ?c) blk"
      using le cle by simp
    have live1: "\<forall>j. ?idx + ?c \<le> j \<and> j < ?n \<longrightarrow> ?blk1 ! j \<noteq> None"
    proof (intro allI impI)
      fix j assume j: "?idx + ?c \<le> j \<and> j < ?n"
      then have "?blk1 ! j = drop (?idx + ?c) ?blk1 ! (j - (?idx + ?c))"
        using len1 le by (simp del: drop_append)
      also have "\<dots> = blk ! j"
        unfolding d1 using j le by simp
      finally show "?blk1 ! j \<noteq> None"
        using storage(7) j by simp
    qed
    have "\<exists>blk'. shiftLeft this index ?cnt ?w1 = (Inr (), ?w1\<lparr>heap := (heap ?w1)(a \<mapsto> blk')\<rparr>) \<and>
       length blk' = length ?blk1 \<and>
       take (unat index) blk' = take (unat index) ?blk1 \<and>
       take (unat (m_size (objs ?w1 this)) - unat index - unat ?cnt) (drop (unat index) blk') =
         take (unat (m_size (objs ?w1 this)) - unat index - unat ?cnt) (drop (unat index + unat ?cnt) ?blk1)"
    proof (rule shiftLeft_ok)
      show "m_data (objs ?w1 this) = Ptr a 0" using storage(1) by simp
      show "heap ?w1 a = Some ?blk1" by simp
      show "unat (m_size (objs ?w1 this)) \<le> length ?blk1" using le len1 by simp
      show "length ?blk1 < 18446744073709551616" using bound len1 by simp
      show "0 < unat ?cnt" using c0 unfolding c .
      show "unat index + unat ?cnt \<le> unat (m_size (objs ?w1 this))"
        unfolding c using cle by simp
      show "\<forall>j. unat index + unat ?cnt \<le> j \<and> j < unat (m_size (objs ?w1 this)) \<longrightarrow> ?blk1 ! j \<noteq> None"
        unfolding c using live1 by simp
    qed
    then obtain blk' where r:
      "shiftLeft this index ?cnt ?w1 = (Inr (), ?w1\<lparr>heap := (heap ?w1)(a \<mapsto> blk')\<rparr>)"
      "length blk' = length ?blk1"
      "take (unat index) blk' = take (unat index) ?blk1"
      "take (unat (m_size (objs ?w1 this)) - unat index - unat ?cnt) (drop (unat index) blk') =
         take (unat (m_size (objs ?w1 this)) - unat index - unat ?cnt) (drop (unat index + unat ?cnt) ?blk1)"
      by blast
    have res:
      "shiftLeft this index ?cnt ?w1 = (Inr (), w\<lparr>heap := (heap w)(a \<mapsto> blk')\<rparr>)"
      "length blk' = length blk"
      "take ?idx blk' = take ?idx blk"
      "take (?n - ?idx - ?c) (drop ?idx blk') = take (?n - ?idx - ?c) (drop (?idx + ?c) blk)"
    proof -
      show "shiftLeft this index ?cnt ?w1 = (Inr (), w\<lparr>heap := (heap w)(a \<mapsto> blk')\<rparr>)"
        unfolding r(1) heap_update_twice ..
      show "length blk' = length blk"
        unfolding r(2) len1 ..
      show "take ?idx blk' = take ?idx blk"
        unfolding r(3) t1 ..
      have "m_size (objs ?w1 this) = m_size (objs w this)" by simp
      then show "take (?n - ?idx - ?c) (drop ?idx blk') = take (?n - ?idx - ?c) (drop (?idx + ?c) blk)"
        using r(4) unfolding c d1 by simp
    qed
    let ?v = "w\<lparr>heap := (heap w)(a \<mapsto> blk'),
                 objs := (objs w)(this := (objs w this)\<lparr>m_size := m_size (objs w this) - ?cnt\<rparr>)\<rparr>"
    have "RemoveRange this index count w =
        bind (destroy_n (Ptr a ?idx) (unat ?cnt)) (\<lambda>_.
        bind (shiftLeft this index ?cnt) (\<lambda>_.
        bind (get_size this) (\<lambda>sz'. set_size this (sz' - ?cnt)))) w"
      using False assms(2) storage(1)
      by (simp add: RemoveRange_def bind_checkRange bind_get_size bind_get_data ptr_add_def Let_def
          not_le [symmetric])
    also have "\<dots> = (Inr (), ?v)"
      unfolding c using d res(1) by (simp add: bind_apply set_size_def get_size_def)
    finally have run: "RemoveRange this index count w = (Inr (), ?v)" .
    have "?cnt \<le> m_size (objs w this)"
      using c cle by (simp add: word_le_nat_alt)
    then have n': "unat (m_size (objs w this) - ?cnt) = ?n - ?c"
      using c by (simp add: unat_sub)
    have split: "take (?n - ?c) blk' = take ?idx blk @ take (?n - ?idx - ?c) (drop (?idx + ?c) blk)"
    proof -
      have "?n - ?c = ?idx + (?n - ?idx - ?c)"
        using idx by simp
      then have "take (?n - ?c) blk' = take ?idx blk' @ take (?n - ?idx - ?c) (drop ?idx blk')"
        by (simp only: take_add)
      then show ?thesis
        using res(3,4) by simp
    qed
    have live: "\<forall>i < ?n - ?c. blk' ! i \<noteq> None"
    proof (intro allI impI)
      fix i assume i: "i < ?n - ?c"
      then have "blk' ! i = take (?n - ?c) blk' ! i" by simp
      also have "\<dots> = (take ?idx blk @ take (?n - ?idx - ?c) (drop (?idx + ?c) blk)) ! i"
        by (simp only: split)
      also have "\<dots> \<noteq> None"
        using i idx le storage(7) by (auto simp: nth_append)
      finally show "blk' ! i \<noteq> None" .
    qed
    have v: "valid ?v this"
      apply (rule valid_storageI [where a = a and blk = blk'])
      using storage res(2) n' live by (auto simp: word_le_nat_alt)
    have "elements ?v this = map the (take (?n - ?c) blk')"
      using storage(1) n' by (simp add: elements_def)
    also have "\<dots> = map the (take ?idx blk) @ map the (take (?n - ?idx - ?c) (drop (?idx + ?c) blk))"
      by (simp only: split map_append)
    also have "\<dots> = take ?idx (elements w this) @ drop (?idx + unat count) (elements w this)"
      using storage(1,2) idx le
      by (auto simp: elements_def take_map drop_map drop_take min_def)
    finally have e: "elements ?v this =
        take ?idx (elements w this) @ drop (?idx + unat count) (elements w this)" .
    show ?thesis
      using run v e n' by simp
  qed
qed

subsection \<open>The remaining operations keep the invariant\<close>

text \<open>
  Each lemma of this part says of one public operation that, run on a valid container
  within its precondition, it returns, leaves the container valid, and what sequence it
  leaves in it. An initializer list is given by its backing array, a block other than the
  container's own storage; sizes are assumed not to wrap around \<^verbatim>\<open>std::size_t\<close>; where
  an operation needs new storage, the storage is assumed to be allocated; and an argument
  passed by reference refers to a live object outside the container's own storage.
\<close>

lemma DynamicArray_default_apply:
  "DynamicArray_default this w =
     (Inr (), w\<lparr>objs := (objs w)(this := \<lparr>m_data = nullptr, m_size = 0, m_capacity = 0\<rparr>)\<rparr>)"
  by (simp add: DynamicArray_default_def bind_apply field_defs)

lemma DynamicArray_default_ok:
  "\<exists>w'. DynamicArray_default this w = (Inr (), w') \<and> valid w' this \<and> elements w' this = [] \<and>
     m_size (objs w' this) = 0 \<and> m_capacity (objs w' this) = 0"
  by (simp add: DynamicArray_default_apply valid_def elements_def)

lemma tidy_ok:
  assumes "valid w this"
  shows "\<exists>w'. tidy this w = (Inr (), w') \<and> valid w' this \<and> elements w' this = [] \<and>
     objs w' this = \<lparr>m_data = nullptr, m_size = 0, m_capacity = 0\<rparr>"
  using assms
proof (cases rule: valid_cases)
  case empty
  then show ?thesis
    by (simp add: tidy_def replaceStorage_empty valid_def elements_def)
next
  case (storage a blk)
  have le: "unat (m_size (objs w this)) \<le> length blk"
    using storage by (simp add: word_le_nat_alt)
  have "tidy this w = (Inr (), w\<lparr>heap := (heap w)(a := None),
      objs := (objs w)(this := \<lparr>m_data = nullptr, m_size = 0, m_capacity = 0\<rparr>)\<rparr>)"
    unfolding tidy_def by (rule replaceStorage_storage) (use storage le in auto)
  then show ?thesis
    by (simp add: valid_def elements_def)
qed

lemma destructor_ok:
  "valid w this \<Longrightarrow> \<exists>w'. destructor this w = (Inr (), w') \<and> valid w' this \<and>
     objs w' this = \<lparr>m_data = nullptr, m_size = 0, m_capacity = 0\<rparr>"
  using tidy_ok [of w this] by (auto simp: destructor_def)

lemma Shrink_ok:
  assumes "valid w this"
    "m_size (objs w this) = m_capacity (objs w this) \<or> m_size (objs w this) = 0 \<or>
     allocates w (m_size (objs w this))"
  shows "\<exists>w'. Shrink this w = (Inr (), w') \<and> valid w' this \<and>
     elements w' this = elements w this \<and>
     m_size (objs w' this) = m_size (objs w this) \<and>
     m_capacity (objs w' this) = m_size (objs w this)"
proof -
  let ?sz = "m_size (objs w this)"
  have run: "Shrink this w =
      (if ?sz = m_capacity (objs w this) then (Inr (), w)
       else if ?sz = 0 then tidy this w else reallocate this ?sz w)"
    by (simp add: Shrink_def bind_get_size bind_get_capacity return_def)
  show ?thesis
  proof (cases "?sz = m_capacity (objs w this)")
    case True
    then show ?thesis using assms(1) run by simp
  next
    case ne: False
    show ?thesis
    proof (cases "?sz = 0")
      case True
      then have "elements w this = []"
        using length_elements [OF assms(1)] by simp
      then show ?thesis
        using tidy_ok [OF assms(1)] ne True run by auto
    next
      case False
      have al: "allocates w ?sz"
        using assms(2) ne False by simp
      have "take (unat ?sz) (elements w this) = elements w this"
        using length_elements [OF assms(1)] by simp
      then show ?thesis
        using reallocate_ok [OF assms(1) False al] ne False run by auto
    qed
  qed
qed

lemma bind_return_right: "bind m return = m"
  by (auto simp: bind_def return_def fun_eq_iff split: prod.splits sum.splits)

lemma RemoveAt_as_RemoveRange:
  assumes "index < m_size (objs w this)"
  shows "RemoveAt this index w = RemoveRange this index 1 w"
proof -
  have s: "unat (index + 1) = Suc (unat index)"
    using assms by (rule size_t_less_succ)
  then have "\<not> m_size (objs w this) < index + 1"
    using assms by (simp add: word_less_nat_alt)
  then show ?thesis
    using assms
    by (simp add: RemoveAt_def RemoveRange_def bind_checkRange bind_get_size bind_get_data Let_def
        bind_return_right not_le [symmetric])
qed

lemma RemoveAt_ok:
  assumes "valid w this" "index < m_size (objs w this)"
  shows "\<exists>w'. RemoveAt this index w = (Inr (), w') \<and> valid w' this \<and>
     elements w' this = take (unat index) (elements w this) @ drop (Suc (unat index)) (elements w this) \<and>
     unat (m_size (objs w' this)) = unat (m_size (objs w this)) - 1 \<and>
     m_capacity (objs w' this) = m_capacity (objs w this)"
proof -
  have "unat index < unat (m_size (objs w this))"
    using assms(2) by (simp add: word_less_nat_alt)
  moreover have "unat (m_size (objs w this)) < 18446744073709551616"
    using unsigned_less [of "m_size (objs w this)", where 'a = nat] by simp
  ultimately have "unat index + unat (1::size_t) < 18446744073709551616" and
      m: "min (unat (1::size_t)) (unat (m_size (objs w this)) - unat index) = 1"
    by simp_all
  from RemoveRange_ok [OF assms this(1)] show ?thesis
    unfolding RemoveAt_as_RemoveRange [OF assms(2)] m by simp
qed

lemma RemoveAt_out_of_range:
  "m_size (objs w this) \<le> index \<Longrightarrow> RemoveAt this index w = (Inl out_of_range, w)"
  by (simp add: RemoveAt_def bind_checkRange)

lemma FindIf_loop_ok:
  assumes "valid w this" "i \<le> m_size (objs w this)"
  shows "\<exists>r. FindIf_loop this pred i w = (Inr r, w) \<and>
     ((\<exists>x \<in> set (drop (unat i) (elements w this)). pred x) \<longrightarrow>
        unat r = unat i + length (takeWhile (\<lambda>x. \<not> pred x) (drop (unat i) (elements w this)))) \<and>
     (\<not> (\<exists>x \<in> set (drop (unat i) (elements w this)). pred x) \<longrightarrow> r = INDEX_NONE)"
  using assms(2)
proof (induction "unat (m_size (objs w this)) - unat i" arbitrary: i)
  case 0
  then have "\<not> i < m_size (objs w this)"
    by (simp add: word_less_nat_alt)
  moreover have "drop (unat i) (elements w this) = []"
    using 0 assms(1) by (simp add: length_elements)
  ultimately show ?case
    by (subst FindIf_loop.simps) (simp add: get_size_def bind_apply return_def)
next
  case (Suc k)
  then have lt: "i < m_size (objs w this)"
    by (simp add: word_less_nat_alt)
  have step: "unat (i + 1) = Suc (unat i)"
    using lt by (rule size_t_less_succ)
  have le: "i + 1 \<le> m_size (objs w this)"
    using lt step by (simp add: word_le_nat_alt word_less_nat_alt)
  have k: "k = unat (m_size (objs w this)) - unat (i + 1)"
    using Suc.hyps(2) step by simp
  note IH = Suc.hyps(1) [OF k le]
  have x: "load (ptr_add (m_data (objs w this)) i) w = (Inr (elements w this ! unat i), w)"
    using assms(1) lt by (rule load_element)
  have d: "drop (unat i) (elements w this) =
      elements w this ! unat i # drop (unat (i + 1)) (elements w this)"
    using assms(1) lt by (rule drop_elements)
  have unfold: "FindIf_loop this pred i w =
      (if pred (elements w this ! unat i) then (Inr i, w) else FindIf_loop this pred (i + 1) w)"
    apply (subst FindIf_loop.simps)
    using lt x by (simp add: get_size_def get_data_def bind_apply return_def)
  show ?case
  proof (cases "pred (elements w this ! unat i)")
    case True
    then show ?thesis
      unfolding unfold d by simp
  next
    case False
    then show ?thesis
      unfolding unfold d using IH step by auto
  qed
qed

lemma FindIf_ok:
  assumes "valid w this"
  shows "\<exists>r. FindIf this pred w = (Inr r, w) \<and>
     ((\<exists>x \<in> set (elements w this). pred x) \<longrightarrow>
        unat r = length (takeWhile (\<lambda>x. \<not> pred x) (elements w this))) \<and>
     (\<not> (\<exists>x \<in> set (elements w this). pred x) \<longrightarrow> r = INDEX_NONE)"
  using FindIf_loop_ok [OF assms, of 0 pred] by (simp add: FindIf_def)

lemma Find_ok:
  assumes "valid w this"
  shows "\<exists>r. Find this v w = (Inr r, w) \<and>
     (v \<in> set (elements w this) \<longrightarrow>
        unat r = length (takeWhile (\<lambda>x. x \<noteq> v) (elements w this))) \<and>
     (v \<notin> set (elements w this) \<longrightarrow> r = INDEX_NONE)"
  using FindIf_loop_ok [OF assms, of 0 "\<lambda>x. x = v"] by (simp add: Find_def)

lemma INDEX_NONE_not_an_index:
  assumes "valid w this" "unat r < length (elements w this)"
  shows "r \<noteq> INDEX_NONE"
proof -
  have "unat r < unat (m_size (objs w this))"
    using assms by (simp add: length_elements)
  moreover have "unat (m_size (objs w this)) \<le> 18446744073709551615"
    using unsigned_less [of "m_size (objs w this)", where 'a = nat] by simp
  ultimately show ?thesis
    by (auto simp: INDEX_NONE_def unat_max)
qed

lemma takeWhile_index_less:
  "\<exists>x \<in> set xs. pred x \<Longrightarrow> length (takeWhile (\<lambda>x. \<not> pred x) xs) < length xs"
  by (induction xs) auto

lemma Contains_ok:
  assumes "valid w this"
  shows "Contains this v w = (Inr (v \<in> set (elements w this)), w)"
proof -
  obtain r where r: "Find this v w = (Inr r, w)"
      "v \<in> set (elements w this) \<longrightarrow>
         unat r = length (takeWhile (\<lambda>x. x \<noteq> v) (elements w this))"
      "v \<notin> set (elements w this) \<longrightarrow> r = INDEX_NONE"
    using Find_ok [OF assms, of v] by blast
  have "r \<noteq> INDEX_NONE \<longleftrightarrow> v \<in> set (elements w this)"
  proof (cases "v \<in> set (elements w this)")
    case True
    then have "unat r < length (elements w this)"
      using r(2) takeWhile_index_less [of "elements w this" "\<lambda>x. x = v"] by auto
    then show ?thesis
      using True INDEX_NONE_not_an_index [OF assms] by simp
  next
    case False
    then show ?thesis using r(3) by simp
  qed
  then show ?thesis
    using r(1) by (simp add: Contains_def bind_apply return_def)
qed

lemma ContainsIf_ok:
  assumes "valid w this"
  shows "ContainsIf this pred w = (Inr (\<exists>x \<in> set (elements w this). pred x), w)"
proof -
  obtain r where r: "FindIf this pred w = (Inr r, w)"
      "(\<exists>x \<in> set (elements w this). pred x) \<longrightarrow>
         unat r = length (takeWhile (\<lambda>x. \<not> pred x) (elements w this))"
      "\<not> (\<exists>x \<in> set (elements w this). pred x) \<longrightarrow> r = INDEX_NONE"
    using FindIf_ok [OF assms, of pred] by blast
  have "r \<noteq> INDEX_NONE \<longleftrightarrow> (\<exists>x \<in> set (elements w this). pred x)"
  proof (cases "\<exists>x \<in> set (elements w this). pred x")
    case True
    then have "unat r < length (elements w this)"
      using r(2) takeWhile_index_less [of "elements w this" pred] by auto
    then show ?thesis
      using True INDEX_NONE_not_an_index [OF assms] by simp
  next
    case False
    then show ?thesis using r(3) by simp
  qed
  then show ?thesis
    using r(1) by (simp add: ContainsIf_def bind_apply return_def)
qed

lemma remove1_takeWhile:
  "v \<in> set xs \<Longrightarrow>
   take (length (takeWhile (\<lambda>x. x \<noteq> v) xs)) xs @ drop (Suc (length (takeWhile (\<lambda>x. x \<noteq> v) xs))) xs =
   remove1 v xs"
  by (induction xs) auto

lemma Remove_ok:
  assumes "valid w this"
  shows "\<exists>w'. Remove this v w = (Inr (v \<in> set (elements w this)), w') \<and> valid w' this \<and>
     elements w' this = remove1 v (elements w this) \<and>
     m_capacity (objs w' this) = m_capacity (objs w this)"
proof -
  obtain r where r: "Find this v w = (Inr r, w)"
      "v \<in> set (elements w this) \<longrightarrow>
         unat r = length (takeWhile (\<lambda>x. x \<noteq> v) (elements w this))"
      "v \<notin> set (elements w this) \<longrightarrow> r = INDEX_NONE"
    using Find_ok [OF assms, of v] by blast
  show ?thesis
  proof (cases "v \<in> set (elements w this)")
    case True
    then have u: "unat r = length (takeWhile (\<lambda>x. x \<noteq> v) (elements w this))"
      using r(2) by simp
    then have lt: "unat r < length (elements w this)"
      using True takeWhile_index_less [of "elements w this" "\<lambda>x. x = v"] by auto
    then have ne: "r \<noteq> INDEX_NONE"
      using INDEX_NONE_not_an_index [OF assms] by simp
    have "r < m_size (objs w this)"
      using lt assms by (simp add: length_elements word_less_nat_alt)
    from RemoveAt_ok [OF assms this] show ?thesis
      using True r(1) ne u by (auto simp: Remove_def bind_apply return_def remove1_takeWhile)
  next
    case False
    then show ?thesis
      using r assms by (simp add: Remove_def bind_apply return_def remove1_idem)
  qed
qed

lemma Resize_ok:
  assumes "valid w this"
    "heap w s = Some sblk" "so < length sblk" "sblk ! so = Some v" "s < next_block w"
    "m_data (objs w this) \<noteq> Ptr s 0"
    "n \<le> m_capacity (objs w this) \<or> allocates w (grown_capacity (m_capacity (objs w this)) n)"
  shows "\<exists>w'. Resize this n (Ptr s so) w = (Inr (), w') \<and> valid w' this \<and>
     m_size (objs w' this) = n \<and>
     elements w' this = take (unat n) (elements w this) @
        replicate (unat n - unat (m_size (objs w this))) v"
proof -
  let ?sz = "m_size (objs w this)"
  consider (shrink) "n < ?sz" | (grow) "?sz < n" | (same) "n = ?sz"
    by (metis linorder_neqE_linordered_idom not_less_iff_gr_or_eq word_less_nat_alt word_unat_eq_iff nat_neq_iff)
  then show ?thesis
  proof cases
    case shrink
    then have ln: "unat n < unat ?sz" by (simp add: word_less_nat_alt)
    have k: "unat (?sz - n) = unat ?sz - unat n"
      using shrink by (simp add: unat_sub word_less_nat_alt word_le_nat_alt)
    from assms(1) show ?thesis
    proof (cases rule: valid_cases)
      case empty
      then show ?thesis using ln by simp
    next
      case (storage a blk)
      have le: "unat ?sz \<le> length blk"
        using storage by (simp add: word_le_nat_alt)
      let ?blk = "take (unat n) blk @ replicate (unat ?sz - unat n) None @ drop (unat ?sz) blk"
      let ?v = "w\<lparr>heap := (heap w)(a \<mapsto> ?blk),
                  objs := (objs w)(this := (objs w this)\<lparr>m_size := n\<rparr>)\<rparr>"
      have "destroy_n (Ptr a (unat n)) (unat ?sz - unat n) w =
         (Inr (), w\<lparr>heap := (heap w)(a \<mapsto> take (unat n) blk @
              replicate (unat ?sz - unat n) None @ drop (unat n + (unat ?sz - unat n)) blk)\<rparr>)"
        by (rule destroy_n_ok) (use storage le ln in auto)
      then have d: "destroy_n (Ptr a (unat n)) (unat ?sz - unat n) w =
         (Inr (), w\<lparr>heap := (heap w)(a \<mapsto> ?blk)\<rparr>)"
        using ln by simp
      have run: "Resize this n (Ptr s so) w = (Inr (), ?v)"
        using shrink storage(1) d k
        by (simp add: Resize_def bind_apply field_defs ptr_add_def)
      have v: "valid ?v this"
        apply (rule valid_storageI [where a = a and blk = ?blk])
        using storage le ln shrink by (auto simp: nth_append)
      have e: "elements ?v this = take (unat n) (elements w this)"
        using storage(1,2) le ln by (simp add: elements_def take_map min_def)
      show ?thesis
        using run v e ln by simp
    qed
  next
    case grow
    then have ln: "unat ?sz < unat n" by (simp add: word_less_nat_alt)
    then have ng: "\<not> n < ?sz" by (simp add: word_less_nat_alt)
    have k: "unat (n - ?sz) = unat n - unat ?sz"
      using grow by (simp add: unat_sub word_less_nat_alt word_le_nat_alt)
    obtain w1 where w1: "ensureCapacity this n w = (Inr (), w1)" "valid w1 this"
        "elements w1 this = elements w this" "m_size (objs w1 this) = ?sz"
        "n \<le> m_capacity (objs w1 this)"
      using ensureCapacity_ok [OF assms(1,7)] by auto
    have hs: "heap w1 s = Some sblk"
      using ensureCapacity_frame [OF assms(1,5,6,7)] w1(1) assms(2) by simp
    have fr: "m_data (objs w1 this) \<noteq> Ptr s 0"
      using ensureCapacity_fresh [OF assms(1,5,6,7)] w1(1) by simp
    from w1(2) show ?thesis
    proof (cases rule: valid_cases)
      case empty
      then show ?thesis using w1(5) ln by (simp add: word_le_nat_alt)
    next
      case (storage a blk)
      have ne: "s \<noteq> a" using fr storage(1) by auto
      have le: "unat n \<le> length blk"
        using storage w1(5) by (simp add: word_le_nat_alt)
      let ?blk = "take (unat ?sz) blk @ replicate (unat n - unat ?sz) (Some v) @ drop (unat n) blk"
      let ?v = "w1\<lparr>heap := (heap w1)(a \<mapsto> ?blk),
                  objs := (objs w1)(this := (objs w1 this)\<lparr>m_size := n\<rparr>)\<rparr>"
      have "uninitialized_fill_n (Ptr a (unat ?sz)) (unat n - unat ?sz) (Ptr s so) w1 =
         (Inr (), w1\<lparr>heap := (heap w1)(a \<mapsto> take (unat ?sz) blk @
              replicate (unat n - unat ?sz) (Some v) @ drop (unat ?sz + (unat n - unat ?sz)) blk)\<rparr>)"
        by (rule uninitialized_fill_n_ok) (use storage le ln hs ne assms(3,4) in auto)
      then have d: "uninitialized_fill_n (Ptr a (unat ?sz)) (unat n - unat ?sz) (Ptr s so) w1 =
         (Inr (), w1\<lparr>heap := (heap w1)(a \<mapsto> ?blk)\<rparr>)"
        using ln by simp
      have run: "Resize this n (Ptr s so) w = (Inr (), ?v)"
        using grow ng w1(1,4) storage(1) d k
        by (simp add: Resize_def bind_apply field_defs ptr_add_def)
      have v: "valid ?v this"
        apply (rule valid_storageI [where a = a and blk = ?blk])
        using storage le ln w1(4,5) by (auto simp: nth_append)
      have "elements ?v this = map the (take (unat ?sz) blk) @ replicate (unat n - unat ?sz) v"
        using storage(1,2) le ln by (simp add: elements_def min_def)
      moreover have "elements w1 this = map the (take (unat ?sz) blk)"
        using storage(1,2) w1(4) by (simp add: elements_def)
      moreover have "take (unat n) (elements w this) = elements w this"
        using ln assms(1) by (simp add: length_elements)
      ultimately have e: "elements ?v this =
          take (unat n) (elements w this) @ replicate (unat n - unat ?sz) v"
        using w1(3) by simp
      show ?thesis
        using run v e by simp
    qed
  next
    case same
    let ?v = "w\<lparr>objs := (objs w)(this := (objs w this)\<lparr>m_size := n\<rparr>)\<rparr>"
    have run: "Resize this n (Ptr s so) w = (Inr (), ?v)"
      using same by (simp add: Resize_def bind_apply field_defs return_def)
    have eq: "?v = w" using same by simp
    have "take (unat n) (elements w this) = elements w this"
      using same assms(1) by (simp add: length_elements)
    then show ?thesis
      unfolding run eq using assms(1) same by simp
  qed
qed

lemma shiftRight_loop_ok:
  assumes "m_data (objs w this) = Ptr a 0" "heap w a = Some blk"
    "unat index + unat i + unat count \<le> length blk" "length blk < 18446744073709551616"
    "0 < unat count"
    "\<forall>j < unat i. blk ! (unat index + j) \<noteq> None"
  shows "\<exists>blk'. shiftRight_loop this index count i w =
       (Inr (), w\<lparr>heap := (heap w)(a \<mapsto> blk')\<rparr>) \<and>
     length blk' = length blk \<and>
     (\<forall>j < unat index. blk' ! j = blk ! j) \<and>
     (\<forall>j < unat i. blk' ! (unat index + unat count + j) = blk ! (unat index + j)) \<and>
     (\<forall>j. unat index + unat count + unat i \<le> j \<longrightarrow> blk' ! j = blk ! j)"
  using assms
proof (induction "unat i" arbitrary: i w blk)
  case 0
  then have "\<not> 0 < i"
    by (simp add: word_less_nat_alt)
  moreover have "w\<lparr>heap := (heap w)(a \<mapsto> blk)\<rparr> = w"
    using "0.prems"(2) by (simp add: fun_upd_idem)
  ultimately have "shiftRight_loop this index count i w =
       (Inr (), w\<lparr>heap := (heap w)(a \<mapsto> blk)\<rparr>) \<and>
     length blk = length blk \<and>
     (\<forall>j < unat index. blk ! j = blk ! j) \<and>
     (\<forall>j < unat i. blk ! (unat index + unat count + j) = blk ! (unat index + j)) \<and>
     (\<forall>j. unat index + unat count + unat i \<le> j \<longrightarrow> blk ! j = blk ! j)"
    using "0.hyps" by (subst shiftRight_loop.simps) (simp add: return_def)
  then show ?case
    by blast
next
  case (Suc k)
  let ?idx = "unat index"
  let ?c = "unat count"
  have pos: "0 < i"
    using Suc.hyps(2) by (simp add: word_less_nat_alt)
  have pi: "unat (i - 1) = k"
    using Suc.hyps(2) by (simp add: unat_minus_one unat_eq_zero [symmetric] del: unat_eq_zero)
  have ui: "unat i = Suc k"
    using Suc.hyps(2) by simp
  have src: "unat (index + (i - 1)) = ?idx + k"
    using Suc.prems(3,4) ui pi by (simp add: unat_add2)
  have dst: "unat (index + (i - 1) + count) = ?idx + k + ?c"
    using Suc.prems(3,4) ui pi src by (simp add: unat_add2)
  have bound: "?idx + k + ?c < length blk"
    using Suc.prems(3) ui by simp
  obtain v where v: "blk ! (?idx + k) = Some v"
    using Suc.prems(6) ui by auto
  let ?blk1 = "blk[?idx + k + ?c := Some v]"
  let ?blk2 = "?blk1[?idx + k := None]"
  let ?w0 = "w\<lparr>heap := (heap w)(a \<mapsto> ?blk1)\<rparr>"
  let ?w1 = "w\<lparr>heap := (heap w)(a \<mapsto> ?blk2)\<rparr>"
  have ld: "load (Ptr a (?idx + k)) w = (Inr v, w)"
    using Suc.prems(2) bound v by (intro load_ok) simp_all
  have c: "construct_at (Ptr a (?idx + k + ?c)) v w = (Inr (Ptr a (?idx + k + ?c)), ?w0)"
    using Suc.prems(2) bound by (intro construct_at_ok) simp_all
  have "destroy_at (Ptr a (?idx + k)) ?w0 =
      (Inr (), ?w0\<lparr>heap := (heap ?w0)(a \<mapsto> ?blk1[?idx + k := None])\<rparr>)"
    using bound v Suc.prems(5) by (intro destroy_at_ok [where v = v]) simp_all
  then have d: "destroy_at (Ptr a (?idx + k)) ?w0 = (Inr (), ?w1)"
    by simp
  have unfold: "shiftRight_loop this index count i w =
      shiftRight_loop this index count (i - 1) ?w1"
    apply (subst shiftRight_loop.simps)
    using pos Suc.prems(1) ld c d
    by (simp add: bind_apply get_data_def ptr_add_def src dst)
  have "\<exists>blk'. shiftRight_loop this index count (i - 1) ?w1 =
       (Inr (), ?w1\<lparr>heap := (heap ?w1)(a \<mapsto> blk')\<rparr>) \<and>
     length blk' = length ?blk2 \<and>
     (\<forall>j < unat index. blk' ! j = ?blk2 ! j) \<and>
     (\<forall>j < unat (i - 1). blk' ! (unat index + unat count + j) = ?blk2 ! (unat index + j)) \<and>
     (\<forall>j. unat index + unat count + unat (i - 1) \<le> j \<longrightarrow> blk' ! j = ?blk2 ! j)"
    apply (rule Suc.hyps(1))
    using pi Suc.prems ui by (auto simp: nth_list_update)
  then obtain blk' where res:
    "shiftRight_loop this index count (i - 1) ?w1 = (Inr (), w\<lparr>heap := (heap w)(a \<mapsto> blk')\<rparr>)"
    "length blk' = length blk"
    "\<forall>j < ?idx. blk' ! j = ?blk2 ! j"
    "\<forall>j < k. blk' ! (?idx + ?c + j) = ?blk2 ! (?idx + j)"
    "\<forall>j. ?idx + ?c + k \<le> j \<longrightarrow> blk' ! j = ?blk2 ! j"
    unfolding pi heap_update_twice by auto
  have p1: "\<forall>j < ?idx. blk' ! j = blk ! j"
    using res(3) by (simp add: nth_list_update)
  have p2: "\<forall>j < Suc k. blk' ! (?idx + ?c + j) = blk ! (?idx + j)"
  proof (intro allI impI)
    fix j assume "j < Suc k"
    then consider "j < k" | "j = k" by linarith
    then show "blk' ! (?idx + ?c + j) = blk ! (?idx + j)"
    proof cases
      case 1
      then show ?thesis using res(4) Suc.prems(5) by (simp add: nth_list_update)
    next
      case 2
      have "blk' ! (?idx + ?c + k) = ?blk2 ! (?idx + ?c + k)"
        using res(5) by simp
      also have "\<dots> = Some v"
        using bound Suc.prems(5) by (simp add: nth_list_update add.commute add.left_commute)
      finally show ?thesis using v 2 by simp
    qed
  qed
  have p3: "\<forall>j. ?idx + ?c + Suc k \<le> j \<longrightarrow> blk' ! j = blk ! j"
    using res(5) by (simp add: nth_list_update)
  show ?case
    unfolding unfold ui using res(1,2) p1 p2 p3 by blast
qed

lemma shiftRight_ok:
  assumes "m_data (objs w this) = Ptr a 0" "heap w a = Some blk"
    "unat (m_size (objs w this)) + unat count \<le> length blk" "length blk < 18446744073709551616"
    "0 < unat count" "index \<le> m_size (objs w this)"
    "\<forall>j < unat (m_size (objs w this)). blk ! j \<noteq> None"
  shows "\<exists>blk'. shiftRight this index count w = (Inr (), w\<lparr>heap := (heap w)(a \<mapsto> blk')\<rparr>) \<and>
     length blk' = length blk \<and>
     (\<forall>j < unat index. blk' ! j = blk ! j) \<and>
     (\<forall>j. unat index \<le> j \<and> j < unat (m_size (objs w this)) \<longrightarrow> blk' ! (j + unat count) = blk ! j)"
proof -
  let ?n = "unat (m_size (objs w this))"
  let ?mc = "m_size (objs w this) - index"
  have le: "unat index \<le> ?n"
    using assms(6) by (simp add: word_le_nat_alt)
  have m: "unat ?mc = ?n - unat index"
    using assms(6) by (rule unat_sub)
  have "\<exists>blk'. shiftRight_loop this index count ?mc w =
       (Inr (), w\<lparr>heap := (heap w)(a \<mapsto> blk')\<rparr>) \<and>
     length blk' = length blk \<and>
     (\<forall>j < unat index. blk' ! j = blk ! j) \<and>
     (\<forall>j < unat ?mc. blk' ! (unat index + unat count + j) = blk ! (unat index + j)) \<and>
     (\<forall>j. unat index + unat count + unat ?mc \<le> j \<longrightarrow> blk' ! j = blk ! j)"
  proof (rule shiftRight_loop_ok)
    show "m_data (objs w this) = Ptr a 0" by (rule assms(1))
    show "heap w a = Some blk" by (rule assms(2))
    show "unat index + unat ?mc + unat count \<le> length blk"
      using assms(3) le m by simp
    show "length blk < 18446744073709551616" by (rule assms(4))
    show "0 < unat count" by (rule assms(5))
    show "\<forall>j < unat ?mc. blk ! (unat index + j) \<noteq> None"
      using assms(7) le m by simp
  qed
  then obtain blk' where res:
    "shiftRight_loop this index count ?mc w = (Inr (), w\<lparr>heap := (heap w)(a \<mapsto> blk')\<rparr>)"
    "length blk' = length blk"
    "\<forall>j < unat index. blk' ! j = blk ! j"
    "\<forall>j < ?n - unat index. blk' ! (unat index + unat count + j) = blk ! (unat index + j)"
    unfolding m by blast
  have run: "shiftRight this index count w = (Inr (), w\<lparr>heap := (heap w)(a \<mapsto> blk')\<rparr>)"
    using res(1) by (simp add: shiftRight_def bind_get_size)
  have p: "\<forall>j. unat index \<le> j \<and> j < ?n \<longrightarrow> blk' ! (j + unat count) = blk ! j"
  proof (intro allI impI)
    fix j assume j: "unat index \<le> j \<and> j < ?n"
    then have "j - unat index < ?n - unat index" by linarith
    with res(4) have "blk' ! (unat index + unat count + (j - unat index)) = blk ! (unat index + (j - unat index))"
      by blast
    moreover have "unat index + unat count + (j - unat index) = j + unat count"
      "unat index + (j - unat index) = j"
      using j by simp_all
    ultimately show "blk' ! (j + unat count) = blk ! j" by simp
  qed
  show ?thesis
    using run res(2,3) p by blast
qed

lemma EmplaceAt_out_of_range:
  assumes "m_size (objs w this) \<noteq> - 1" "m_size (objs w this) < index"
  shows "EmplaceAt this index arg w = (Inl out_of_range, w)"
    and "Insert this index arg w = (Inl out_of_range, w)"
proof -
  have "unat (m_size (objs w this) + 1) = Suc (unat (m_size (objs w this)))"
    using assms(1) by (rule size_t_succ)
  then have "m_size (objs w this) + 1 \<le> index"
    using assms(2) by (simp add: word_le_nat_alt word_less_nat_alt)
  then show "EmplaceAt this index arg w = (Inl out_of_range, w)"
    by (simp add: EmplaceAt_def bind_checkRange)
  then show "Insert this index arg w = (Inl out_of_range, w)"
    by (simp add: Insert_def bind_apply)
qed

text \<open>
  \<^verbatim>\<open>EmplaceAt\<close> and \<^verbatim>\<open>Insert\<close> read their argument after the tail has been shifted, so
  the argument has to refer to an object outside the container's storage.
\<close>

lemma EmplaceAt_ok:
  assumes "valid w this" "m_size (objs w this) \<noteq> - 1" "index \<le> m_size (objs w this)"
    "heap w s = Some sblk" "so < length sblk" "sblk ! so = Some x" "s < next_block w"
    "m_data (objs w this) \<noteq> Ptr s 0"
    "m_size (objs w this) + 1 \<le> m_capacity (objs w this) \<or>
     allocates w (grown_capacity (m_capacity (objs w this)) (m_size (objs w this) + 1))"
  shows "\<exists>p w'. EmplaceAt this index (Ptr s so) w = (Inr p, w') \<and>
     Insert this index (Ptr s so) w = (Inr (), w') \<and>
     valid w' this \<and>
     m_size (objs w' this) = m_size (objs w this) + 1 \<and>
     elements w' this =
       take (unat index) (elements w this) @ [x] @ drop (unat index) (elements w this) \<and>
     p = ptr_add (m_data (objs w' this)) index"
proof -
  let ?sz = "m_size (objs w this)"
  let ?n = "unat ?sz"
  let ?idx = "unat index"
  have suc: "unat (?sz + 1) = Suc ?n"
    using assms(2) by (rule size_t_succ)
  have le: "?idx \<le> ?n"
    using assms(3) by (simp add: word_le_nat_alt)
  have chk: "\<not> ?sz + 1 \<le> index"
    using suc le by (simp add: word_le_nat_alt)
  obtain w1 where w1: "ensureCapacity this (?sz + 1) w = (Inr (), w1)" "valid w1 this"
      "elements w1 this = elements w this" "m_size (objs w1 this) = ?sz"
      "?sz + 1 \<le> m_capacity (objs w1 this)"
    using ensureCapacity_ok [OF assms(1,9)] by auto
  have hs: "heap w1 s = Some sblk"
    using ensureCapacity_frame [OF assms(1,7,8,9)] w1(1) assms(4) by simp
  have fr: "m_data (objs w1 this) \<noteq> Ptr s 0"
    using ensureCapacity_fresh [OF assms(1,7,8,9)] w1(1) by simp
  have lt: "?n < unat (m_capacity (objs w1 this))"
    using w1(5) suc by (simp add: word_le_nat_alt)
  from w1(2) show ?thesis
  proof (cases rule: valid_cases)
    case empty
    then show ?thesis using lt by simp
  next
    case (storage a blk)
    have ne: "s \<noteq> a" using fr storage(1) by auto
    have len: "length blk < 18446744073709551616"
      using storage(6) unsigned_less [of "m_capacity (objs w1 this)", where 'a = nat] by simp
    have live: "\<forall>j < ?n. blk ! j \<noteq> None"
      using storage(7) w1(4) by simp
    have "\<exists>blk'. shiftRight this index 1 w1 = (Inr (), w1\<lparr>heap := (heap w1)(a \<mapsto> blk')\<rparr>) \<and>
       length blk' = length blk \<and>
       (\<forall>j < unat index. blk' ! j = blk ! j) \<and>
       (\<forall>j. unat index \<le> j \<and> j < unat (m_size (objs w1 this)) \<longrightarrow>
          blk' ! (j + unat (1::size_t)) = blk ! j)"
    proof (rule shiftRight_ok)
      show "m_data (objs w1 this) = Ptr a 0" by (rule storage(1))
      show "heap w1 a = Some blk" by (rule storage(2))
      show "unat (m_size (objs w1 this)) + unat (1::size_t) \<le> length blk"
        using lt storage(6) w1(4) by simp
      show "length blk < 18446744073709551616" by (rule len)
      show "0 < unat (1::size_t)" by simp
      show "index \<le> m_size (objs w1 this)" using assms(3) w1(4) by simp
      show "\<forall>j < unat (m_size (objs w1 this)). blk ! j \<noteq> None" by (rule storage(7))
    qed
    then obtain blk' where sh:
      "shiftRight this index 1 w1 = (Inr (), w1\<lparr>heap := (heap w1)(a \<mapsto> blk')\<rparr>)"
      "length blk' = length blk"
      "\<forall>j < ?idx. blk' ! j = blk ! j"
      "\<forall>j. ?idx \<le> j \<and> j < ?n \<longrightarrow> blk' ! Suc j = blk ! j"
      unfolding w1(4) by auto
    let ?w2 = "w1\<lparr>heap := (heap w1)(a \<mapsto> blk')\<rparr>"
    let ?blk = "blk'[?idx := Some x]"
    let ?v = "w1\<lparr>heap := (heap w1)(a \<mapsto> ?blk),
                 objs := (objs w1)(this := (objs w1 this)\<lparr>m_size := ?sz + 1\<rparr>)\<rparr>"
    have il: "?idx < length blk'"
      using le lt sh(2) storage(6) by simp
    have ld: "load (Ptr s so) ?w2 = (Inr x, ?w2)"
      using ne hs assms(5,6) by (intro load_ok [where blk = sblk]) simp_all
    have "construct_at (Ptr a ?idx) x ?w2 =
        (Inr (Ptr a ?idx), ?w2\<lparr>heap := (heap ?w2)(a \<mapsto> ?blk)\<rparr>)"
      using il by (intro construct_at_ok) simp_all
    then have c: "construct_at (Ptr a ?idx) x ?w2 =
        (Inr (Ptr a ?idx), w1\<lparr>heap := (heap w1)(a \<mapsto> ?blk)\<rparr>)"
      by simp
    have run: "EmplaceAt this index (Ptr s so) w = (Inr (Ptr a ?idx), ?v)"
      using chk w1(1,4) storage(1) sh(1) ld c
      by (simp add: EmplaceAt_def checkRange_apply bind_apply field_defs return_def ptr_add_def)
    then have run': "Insert this index (Ptr s so) w = (Inr (), ?v)"
      by (simp add: Insert_def bind_apply return_def)
    have nth: "?blk ! j = (if j < ?idx then blk ! j else if j = ?idx then Some x else blk ! (j - 1))"
      if jn: "j \<le> ?n" for j
    proof -
      consider "j < ?idx" | "j = ?idx" | "?idx < j" by linarith
      then show ?thesis
      proof cases
        case 1
        then show ?thesis using sh(3) by (simp add: nth_list_update)
      next
        case 2
        then show ?thesis using il by simp
      next
        case 3
        then obtain j' where j': "j = Suc j'" "?idx \<le> j'" "j' < ?n"
          using jn by (cases j) auto
        then have "blk' ! Suc j' = blk ! j'" using sh(4) by blast
        then show ?thesis using 3 j' by (simp add: nth_list_update)
      qed
    qed
    have v: "valid ?v this"
    proof (rule valid_storageI [where a = a and blk = ?blk])
      show "\<forall>i < unat (m_size (objs ?v this)). ?blk ! i \<noteq> None"
      proof (intro allI impI)
        fix i assume "i < unat (m_size (objs ?v this))"
        then have i: "i \<le> ?n" using suc by simp
        show "?blk ! i \<noteq> None"
          unfolding nth [OF i] using live i le by (auto simp: less_le_trans)
      qed
    qed (use storage w1(5) sh(2) in auto)
    have ew: "elements w this = map the (take ?n blk)"
      using storage(1,2) w1(3,4) by (simp add: elements_def)
    have ln: "?n < length blk"
      using lt storage(6) by simp
    have "elements ?v this = map the (take (Suc ?n) ?blk)"
      using storage(1) suc by (simp add: elements_def)
    also have "\<dots> = take ?idx (elements w this) @ [x] @ drop ?idx (elements w this)"
    proof (rule nth_equalityI)
      show "length (map the (take (Suc ?n) ?blk)) =
          length (take ?idx (elements w this) @ [x] @ drop ?idx (elements w this))"
        using ln le sh(2) by (simp add: ew)
    next
      fix i assume "i < length (map the (take (Suc ?n) ?blk))"
      then have i: "i \<le> ?n" by simp
      then have "map the (take (Suc ?n) ?blk) ! i = the (?blk ! i)"
        using ln sh(2) by simp
      also have "\<dots> = (take ?idx (elements w this) @ [x] @ drop ?idx (elements w this)) ! i"
        unfolding nth [OF i] using i le ln by (auto simp: ew nth_append min_def)
      finally show "map the (take (Suc ?n) ?blk) ! i =
          (take ?idx (elements w this) @ [x] @ drop ?idx (elements w this)) ! i" .
    qed
    finally have e: "elements ?v this =
        take ?idx (elements w this) @ [x] @ drop ?idx (elements w this)" .
    show ?thesis
      using run run' v e storage(1) by (simp add: ptr_add_def)
  qed
qed

lemma assign_nothing: "assign this src 0 = Clear this"
  by (simp add: assign_def Clear_def bind_def get_capacity_def fun_eq_iff return_def
      split: prod.splits sum.splits)

lemma copy_if_positive:
  "(if count > 0 then uninitialized_copy_n src (unat count) dst else return ()) =
   uninitialized_move_n src (unat count) dst"
  by (cases "count = 0") (simp_all add: uninitialized_copy_n_eq_move word_greater_zero_iff)

lemma assign_ok:
  assumes "valid w this" "heap w s = Some sblk" "s < next_block w" "unat count \<le> length sblk"
    "\<forall>i < unat count. sblk ! i \<noteq> None" "m_data (objs w this) \<noteq> Ptr s 0"
    "count \<le> m_capacity (objs w this) \<or> allocates w count"
  shows "\<exists>w'. assign this (Ptr s 0) count w = (Inr (), w') \<and> valid w' this \<and>
     m_size (objs w' this) = count \<and>
     elements w' this = map the (take (unat count) sblk) \<and>
     heap w' s = Some sblk \<and> next_block w \<le> next_block w' \<and>
     (\<forall>other. other \<noteq> this \<longrightarrow> objs w' other = objs w other)"
proof (cases "count \<le> m_capacity (objs w this)")
  case True
  from assms(1) show ?thesis
  proof (cases rule: valid_cases)
    case empty
    then have "count = 0" using True by simp
    then show ?thesis
      using Clear_ok [OF assms(1)] empty assms(2)
      by (auto simp: assign_nothing Clear_def bind_apply field_defs return_def)
  next
    case (storage a blk)
    let ?n = "unat (m_size (objs w this))"
    let ?c = "unat count"
    have ne: "s \<noteq> a" using assms(6) storage(1) by auto
    have le: "?n \<le> length blk"
      using storage by (simp add: word_le_nat_alt)
    have cl: "?c \<le> length blk"
      using True storage(6) by (simp add: word_le_nat_alt)
    let ?blk1 = "replicate ?n None @ drop ?n blk"
    let ?blk2 = "take ?c sblk @ drop ?c ?blk1"
    let ?w1 = "w\<lparr>heap := (heap w)(a \<mapsto> ?blk1)\<rparr>"
    let ?v = "w\<lparr>heap := (heap w)(a \<mapsto> ?blk2),
                objs := (objs w)(this := (objs w this)\<lparr>m_size := count\<rparr>)\<rparr>"
    have "destroy_n (Ptr a 0) ?n w =
       (Inr (), w\<lparr>heap := (heap w)(a \<mapsto> take 0 blk @ replicate ?n None @ drop (0 + ?n) blk)\<rparr>)"
      by (rule destroy_n_ok) (use storage le in auto)
    then have d: "destroy_n (Ptr a 0) ?n w = (Inr (), ?w1)"
      by simp
    have "uninitialized_move_n (Ptr s 0) ?c (Ptr a 0) ?w1 =
       (Inr (), ?w1\<lparr>heap := (heap ?w1)(a \<mapsto> take 0 ?blk1 @ take ?c (drop 0 sblk) @ drop (0 + ?c) ?blk1)\<rparr>)"
      by (rule uninitialized_move_n_ok) (use assms(2,4,5) ne le cl in auto)
    then have m: "uninitialized_move_n (Ptr s 0) ?c (Ptr a 0) ?w1 =
       (Inr (), w\<lparr>heap := (heap w)(a \<mapsto> ?blk2)\<rparr>)"
      by simp
    have run: "assign this (Ptr s 0) count w = (Inr (), ?v)"
      using True storage(1) d m
      by (simp add: assign_def copy_if_positive bind_apply field_defs)
    have v: "valid ?v this"
      apply (rule valid_storageI [where a = a and blk = ?blk2])
      using storage le cl True assms(4,5) by (auto simp: nth_append)
    have e: "elements ?v this = map the (take ?c sblk)"
      using storage(1) assms(4) by (simp add: elements_def)
    have h: "heap ?v s = Some sblk"
      using ne assms(2) by simp
    show ?thesis
      using run v e h by simp
  qed
next
  case False
  let ?c = "unat count"
  let ?nb = "next_block w"
  have nz: "count \<noteq> 0" using False by auto
  let ?w1 = "w\<lparr>heap := (heap w)(?nb \<mapsto> replicate ?c None), next_block := Suc ?nb\<rparr>"
  let ?nblk = "take ?c sblk"
  let ?w2 = "w\<lparr>heap := (heap w)(?nb \<mapsto> ?nblk), next_block := Suc ?nb\<rparr>"
  have "allocates w count"
    using assms(7) False by simp
  with nz have al: "allocate count w = (Inr (Ptr ?nb 0), ?w1)"
    by (rule allocate_ok)
  have ne: "s \<noteq> ?nb" using assms(3) by simp
  have "uninitialized_move_n (Ptr s 0) ?c (Ptr ?nb 0) ?w1 =
     (Inr (), ?w1\<lparr>heap := (heap ?w1)(?nb \<mapsto> take 0 (replicate ?c None) @ take ?c (drop 0 sblk) @
         drop (0 + ?c) (replicate ?c None))\<rparr>)"
    by (rule uninitialized_move_n_ok) (use assms(2,4,5) ne in auto)
  then have m: "uninitialized_move_n (Ptr s 0) ?c (Ptr ?nb 0) ?w1 = (Inr (), ?w2)"
    by simp
  have unfold: "assign this (Ptr s 0) count w = replaceStorage this (Ptr ?nb 0) count count ?w2"
    using False al m by (simp add: assign_def copy_if_positive bind_apply get_capacity_def)
  let ?v = "?w2\<lparr>objs := (objs ?w2)(this := \<lparr>m_data = Ptr ?nb 0, m_size = count, m_capacity = count\<rparr>)\<rparr>"
  from assms(1) show ?thesis
  proof (cases rule: valid_cases)
    case empty
    have run: "assign this (Ptr s 0) count w = (Inr (), ?v)"
      unfolding unfold by (rule replaceStorage_empty) (use empty in auto)
    have v: "valid ?v this"
      apply (rule valid_storageI [where a = ?nb and blk = ?nblk])
      using nz assms(4,5) by auto
    have e: "elements ?v this = map the (take ?c sblk)"
      by (simp add: elements_def)
    have h: "heap ?v s = Some sblk"
      using ne assms(2) by simp
    show ?thesis
      using run v e h by simp
  next
    case (storage a blk)
    have na: "a \<noteq> ?nb" using storage(3) by simp
    have sa: "s \<noteq> a" using assms(6) storage(1) by auto
    let ?u = "?w2\<lparr>heap := (heap ?w2)(a := None),
      objs := (objs ?w2)(this := \<lparr>m_data = Ptr ?nb 0, m_size = count, m_capacity = count\<rparr>)\<rparr>"
    have run: "assign this (Ptr s 0) count w = (Inr (), ?u)"
      unfolding unfold
      by (rule replaceStorage_storage [where blk = blk])
         (use storage na in \<open>auto simp: word_le_nat_alt\<close>)
    have v: "valid ?u this"
      apply (rule valid_storageI [where a = ?nb and blk = ?nblk])
      using nz assms(4,5) na by auto
    have e: "elements ?u this = map the (take ?c sblk)"
      using na by (simp add: elements_def)
    have h: "heap ?u s = Some sblk"
      using ne sa assms(2) by simp
    show ?thesis
      using run v e h by simp
  qed
qed

lemma Clear_frame:
  assumes "valid w this" "other \<noteq> this"
  shows "objs (snd (Clear this w)) other = objs w other"
  using assms(1)
proof (cases rule: valid_cases)
  case empty
  then have "Clear this w = (Inr (), w\<lparr>objs := (objs w)(this := (objs w this)\<lparr>m_size := 0\<rparr>)\<rparr>)"
    by (simp add: Clear_def bind_apply field_defs return_def)
  then show ?thesis using assms(2) by simp
next
  case (storage a blk)
  let ?n = "unat (m_size (objs w this))"
  have le: "?n \<le> length blk"
    using storage by (simp add: word_le_nat_alt)
  have d: "destroy_n (Ptr a 0) ?n w =
     (Inr (), w\<lparr>heap := (heap w)(a \<mapsto> take 0 blk @ replicate ?n None @ drop (0 + ?n) blk)\<rparr>)"
    by (rule destroy_n_ok) (use storage le in auto)
  have "Clear this w = (Inr (), w\<lparr>heap := (heap w)(a \<mapsto> replicate ?n None @ drop ?n blk),
      objs := (objs w)(this := (objs w this)\<lparr>m_size := 0\<rparr>)\<rparr>)"
    using storage(1) d by (simp add: Clear_def bind_apply field_defs)
  then show ?thesis using assms(2) by simp
qed

lemma copy_assign_ok:
  assumes "valid w a" "valid w b" "a \<noteq> b" "separate w a b"
    "m_size (objs w b) \<le> m_capacity (objs w a) \<or> allocates w (m_size (objs w b))"
  shows "\<exists>w'. copy_assign a b w = (Inr (), w') \<and> valid w' a \<and> valid w' b \<and>
     elements w' a = elements w b \<and> elements w' b = elements w b"
  using assms(2)
proof (cases rule: valid_cases)
  case empty
  have run: "copy_assign a b w = Clear a w"
    using assms(3) empty by (simp add: copy_assign_def bind_get_data bind_get_size assign_nothing)
  obtain w' where w': "Clear a w = (Inr (), w')" "valid w' a" "elements w' a = []"
    using Clear_ok [OF assms(1)] by blast
  have o: "objs w' b = objs w b"
    using Clear_frame [OF assms(1), of b] assms(3) w'(1) by simp
  have "valid w' b"
    using o empty by (simp add: valid_def)
  moreover have "elements w' b = []" "elements w b = []"
    using o empty by (simp_all add: elements_def)
  ultimately show ?thesis
    using run w' by simp
next
  case (storage s sblk)
  let ?sz = "m_size (objs w b)"
  have ne: "m_data (objs w a) \<noteq> Ptr s 0"
    using assms(3,4) storage(1) by (auto simp: separate_def)
  have le: "unat ?sz \<le> length sblk"
    using storage by (simp add: word_le_nat_alt)
  obtain w' where w': "assign a (Ptr s 0) ?sz w = (Inr (), w')" "valid w' a"
      "elements w' a = map the (take (unat ?sz) sblk)" "heap w' s = Some sblk"
      "next_block w \<le> next_block w'" "\<forall>other. other \<noteq> a \<longrightarrow> objs w' other = objs w other"
    using assign_ok [OF assms(1) storage(2,3) le storage(7) ne assms(5)] by blast
  have run: "copy_assign a b w = (Inr (), w')"
    using assms(3) storage(1) w'(1) by (simp add: copy_assign_def bind_get_data bind_get_size)
  have o: "objs w' b = objs w b"
    using w'(6) assms(3) by simp
  have vb: "valid w' b"
    apply (rule valid_storageI [where a = s and blk = sblk])
    using o storage w'(4,5) by auto
  have eb: "elements w b = map the (take (unat ?sz) sblk)"
    using storage(1,2) by (rule elements_storage)
  have "elements w' b = map the (take (unat (m_size (objs w' b))) sblk)"
    using o storage(1) w'(4) by (intro elements_storage) simp_all
  then have eb': "elements w' b = elements w b"
    using o eb by simp
  show ?thesis
    using run w'(2,3) vb eb eb' by simp
qed

lemma DynamicArray_copy_ok:
  assumes "valid w b" "a \<noteq> b" "m_size (objs w b) = 0 \<or> allocates w (m_size (objs w b))"
  shows "\<exists>w'. DynamicArray_copy a b w = (Inr (), w') \<and> valid w' a \<and> valid w' b \<and>
     elements w' a = elements w b \<and> elements w' b = elements w b"
proof -
  let ?w0 = "w\<lparr>objs := (objs w)(a := \<lparr>m_data = nullptr, m_size = 0, m_capacity = 0\<rparr>)\<rparr>"
  have run: "DynamicArray_copy a b w = copy_assign a b ?w0"
    using assms(2)
    by (simp add: DynamicArray_copy_def copy_assign_def bind_apply DynamicArray_default_apply)
  have va: "valid ?w0 a"
    by (rule valid_emptyI) simp
  have "valid ?w0 b = valid w b"
    by (rule valid_transfer) (use assms(2) in auto)
  then have vb: "valid ?w0 b" using assms(1) by simp
  have sep: "separate ?w0 a b"
    by (simp add: separate_def)
  have e: "elements ?w0 b = elements w b"
    by (rule elements_transfer) (use assms(2) in auto)
  have al: "m_size (objs ?w0 b) \<le> m_capacity (objs ?w0 a) \<or> allocates ?w0 (m_size (objs ?w0 b))"
    using assms(2,3) by (auto simp: allocates_def)
  show ?thesis
    unfolding run using copy_assign_ok [OF va vb assms(2) sep al] e by simp
qed

lemma unat_of_length:
  "length xs < 18446744073709551616 \<Longrightarrow> unat (of_nat (length xs) :: size_t) = length xs"
  by (simp add: unsigned_of_nat take_bit_nat_eq_self)

lemma map_the_Some: "map the (take (length xs) (map Some xs)) = xs"
  by (simp add: comp_def)

lemma DynamicArray_ilist_ok:
  assumes "length xs < 18446744073709551616"
    "xs = [] \<or> allocates (w\<lparr>next_block := Suc (next_block w)\<rparr>) (of_nat (length xs))"
  shows "\<exists>w'. bind (braced_init_list xs) (\<lambda>il. DynamicArray_ilist this il) w = (Inr (), w') \<and>
     valid w' this \<and> elements w' this = xs \<and> unat (m_size (objs w' this)) = length xs"
proof -
  let ?nb = "next_block w"
  let ?c = "of_nat (length xs) :: size_t"
  let ?w1 = "w\<lparr>heap := (heap w)(?nb \<mapsto> map Some xs), next_block := Suc ?nb,
      objs := (objs w)(this := \<lparr>m_data = nullptr, m_size = 0, m_capacity = 0\<rparr>)\<rparr>"
  have run: "bind (braced_init_list xs) (\<lambda>il. DynamicArray_ilist this il) w =
      assign this (Ptr ?nb 0) ?c ?w1"
    by (simp add: braced_init_list_def bind_apply DynamicArray_ilist_def DynamicArray_default_apply)
  have c: "unat ?c = length xs"
    using assms(1) by (rule unat_of_length)
  have v: "valid ?w1 this"
    by (rule valid_emptyI) simp
  have al: "?c \<le> m_capacity (objs ?w1 this) \<or> allocates ?w1 ?c"
    using assms(2) by (auto simp: allocates_def)
  have "\<exists>w'. assign this (Ptr ?nb 0) ?c ?w1 = (Inr (), w') \<and> valid w' this \<and>
     m_size (objs w' this) = ?c \<and>
     elements w' this = map the (take (unat ?c) (map Some xs)) \<and>
     heap w' ?nb = Some (map Some xs) \<and> next_block ?w1 \<le> next_block w' \<and>
     (\<forall>other. other \<noteq> this \<longrightarrow> objs w' other = objs ?w1 other)"
    by (rule assign_ok [OF v _ _ _ _ _ al]) (simp_all add: c)
  then show ?thesis
    unfolding run c map_the_Some using c by auto
qed

lemma ilist_assign_ok:
  assumes "valid w this" "length xs < 18446744073709551616"
    "of_nat (length xs) \<le> m_capacity (objs w this) \<or>
     allocates (w\<lparr>next_block := Suc (next_block w)\<rparr>) (of_nat (length xs))"
  shows "\<exists>w'. bind (braced_init_list xs) (\<lambda>il. ilist_assign this il) w = (Inr (), w') \<and>
     valid w' this \<and> elements w' this = xs \<and> unat (m_size (objs w' this)) = length xs"
proof -
  let ?nb = "next_block w"
  let ?c = "of_nat (length xs) :: size_t"
  let ?w1 = "w\<lparr>heap := (heap w)(?nb \<mapsto> map Some xs), next_block := Suc ?nb\<rparr>"
  have run: "bind (braced_init_list xs) (\<lambda>il. ilist_assign this il) w =
      assign this (Ptr ?nb 0) ?c ?w1"
    by (simp add: braced_init_list_def bind_apply ilist_assign_def)
  have c: "unat ?c = length xs"
    using assms(2) by (rule unat_of_length)
  have v: "valid ?w1 this \<and> m_data (objs ?w1 this) \<noteq> Ptr ?nb 0"
    using assms(1)
  proof (cases rule: valid_cases)
    case empty
    then show ?thesis by (simp add: valid_def)
  next
    case (storage a blk)
    have "valid ?w1 this"
      apply (rule valid_storageI [where a = a and blk = blk])
      using storage by auto
    then show ?thesis using storage(1,3) by simp
  qed
  have al: "?c \<le> m_capacity (objs ?w1 this) \<or> allocates ?w1 ?c"
    using assms(3) by (auto simp: allocates_def)
  have "\<exists>w'. assign this (Ptr ?nb 0) ?c ?w1 = (Inr (), w') \<and> valid w' this \<and>
     m_size (objs w' this) = ?c \<and>
     elements w' this = map the (take (unat ?c) (map Some xs)) \<and>
     heap w' ?nb = Some (map Some xs) \<and> next_block ?w1 \<le> next_block w' \<and>
     (\<forall>other. other \<noteq> this \<longrightarrow> objs w' other = objs ?w1 other)"
    by (rule assign_ok [where w = ?w1, OF _ _ _ _ _ _ al]) (use v in \<open>simp_all add: c\<close>)
  then show ?thesis
    unfolding run c map_the_Some using c by auto
qed

lemma DynamicArray_fill_ok:
  assumes "heap w s = Some sblk" "so < length sblk" "sblk ! so = Some v" "s < next_block w"
    "count = 0 \<or> allocates w count"
  shows "\<exists>w'. DynamicArray_fill this count (Ptr s so) w = (Inr (), w') \<and> valid w' this \<and>
     elements w' this = replicate (unat count) v \<and> m_size (objs w' this) = count"
proof (cases "count = 0")
  case True
  then show ?thesis
    by (simp add: DynamicArray_fill_def bind_apply DynamicArray_default_apply
        return_def valid_def elements_def)
next
  case False
  let ?nb = "next_block w"
  let ?c = "unat count"
  let ?w3 = "w\<lparr>heap := (heap w)(?nb \<mapsto> replicate ?c None), next_block := Suc ?nb,
      objs := (objs w)(this := \<lparr>m_data = Ptr ?nb 0, m_size = 0, m_capacity = count\<rparr>)\<rparr>"
  let ?v = "w\<lparr>heap := (heap w)(?nb \<mapsto> replicate ?c (Some v)), next_block := Suc ?nb,
      objs := (objs w)(this := \<lparr>m_data = Ptr ?nb 0, m_size = count, m_capacity = count\<rparr>)\<rparr>"
  have ne: "s \<noteq> ?nb" using assms(4) by simp
  have "uninitialized_fill_n (Ptr ?nb 0) ?c (Ptr s so) ?w3 =
     (Inr (), ?w3\<lparr>heap := (heap ?w3)(?nb \<mapsto> take 0 (replicate ?c None) @ replicate ?c (Some v) @
        drop (0 + ?c) (replicate ?c None))\<rparr>)"
    by (rule uninitialized_fill_n_ok [where sblk = sblk]) (use assms(1,2,3) ne in simp_all)
  then have f: "uninitialized_fill_n (Ptr ?nb 0) ?c (Ptr s so) ?w3 =
     (Inr (), w\<lparr>heap := (heap w)(?nb \<mapsto> replicate ?c (Some v)), next_block := Suc ?nb,
      objs := (objs w)(this := \<lparr>m_data = Ptr ?nb 0, m_size = 0, m_capacity = count\<rparr>)\<rparr>)"
    by simp
  have pos: "0 < count" using False by (simp add: word_greater_zero_iff)
  have al: "allocates (w\<lparr>objs := (objs w)(this := \<lparr>m_data = nullptr, m_size = 0, m_capacity = 0\<rparr>)\<rparr>)
      count"
    using assms(5) False by (simp add: allocates_def)
  have run: "DynamicArray_fill this count (Ptr s so) w = (Inr (), ?v)"
    using False pos f al
    by (simp add: DynamicArray_fill_def bind_apply DynamicArray_default_apply allocate_ok field_defs)
  have v: "valid ?v this"
    apply (rule valid_storageI [where a = ?nb and blk = "replicate ?c (Some v)"])
    using False by auto
  have e: "elements ?v this = replicate ?c v"
    by (simp add: elements_def)
  show ?thesis
    using run v e by simp
qed

lemma temporary_apply:
  "temporary v w = (Inr (Ptr (next_block w) 0),
     w\<lparr>heap := (heap w)(next_block w \<mapsto> [Some v]), next_block := Suc (next_block w)\<rparr>)"
  by (simp add: temporary_def)

lemma DynamicArray_count_ok:
  assumes "count = 0 \<or> allocates (w\<lparr>next_block := Suc (next_block w)\<rparr>) count"
  shows "\<exists>w'. DynamicArray_count this count T0 w = (Inr (), w') \<and> valid w' this \<and>
     elements w' this = replicate (unat count) T0 \<and> m_size (objs w' this) = count"
proof -
  let ?w1 = "w\<lparr>heap := (heap w)(next_block w \<mapsto> [Some T0]), next_block := Suc (next_block w)\<rparr>"
  have run: "DynamicArray_count this count T0 w = DynamicArray_fill this count (Ptr (next_block w) 0) ?w1"
    by (simp add: DynamicArray_count_def bind_apply temporary_apply)
  have al: "count = 0 \<or> allocates ?w1 count"
    using assms by (auto simp: allocates_def)
  show ?thesis
    unfolding run by (rule DynamicArray_fill_ok [where sblk = "[Some T0]"]) (use al in simp_all)
qed

lemma FindLastIf_loop_ok:
  assumes "valid w this" "i \<le> m_size (objs w this)"
  shows "\<exists>r. FindLastIf_loop this pred i w = (Inr r, w) \<and>
     ((\<exists>x \<in> set (take (unat i) (elements w this)). pred x) \<longrightarrow>
        unat r < unat i \<and> pred (elements w this ! unat r) \<and>
        (\<forall>j. unat r < j \<and> j < unat i \<longrightarrow> \<not> pred (elements w this ! j))) \<and>
     (\<not> (\<exists>x \<in> set (take (unat i) (elements w this)). pred x) \<longrightarrow> r = INDEX_NONE)"
  using assms(2)
proof (induction "unat i" arbitrary: i)
  case 0
  then have "\<not> 0 < i"
    by (simp add: word_less_nat_alt)
  then show ?case
    using "0.hyps" by (subst FindLastIf_loop.simps) (simp add: return_def)
next
  case (Suc k)
  let ?els = "elements w this"
  have pos: "0 < i"
    using Suc.hyps(2) by (simp add: word_less_nat_alt)
  have pi: "unat (i - 1) = k"
    using Suc.hyps(2) by (simp add: unat_minus_one unat_eq_zero [symmetric] del: unat_eq_zero)
  have ui: "unat i = Suc k"
    using Suc.hyps(2) by simp
  have lt: "i - 1 < m_size (objs w this)"
    using Suc.prems pi ui by (simp add: word_less_nat_alt word_le_nat_alt)
  then have le: "i - 1 \<le> m_size (objs w this)"
    by simp
  have kl: "k < length ?els"
    using lt pi assms(1) by (simp add: length_elements word_less_nat_alt)
  have x: "load (ptr_add (m_data (objs w this)) (i - 1)) w = (Inr (?els ! k), w)"
    using load_element [OF assms(1) lt] pi by simp
  have t: "take (Suc k) ?els = take k ?els @ [?els ! k]"
    using kl by (rule take_Suc_conv_app_nth)
  show ?case
  proof (cases "pred (?els ! k)")
    case True
    have "FindLastIf_loop this pred i w = (Inr (i - 1), w)"
      apply (subst FindLastIf_loop.simps)
      using pos x True by (simp add: bind_apply get_data_def return_def)
    then show ?thesis
      using True pi ui t by auto
  next
    case False
    have unfold: "FindLastIf_loop this pred i w = FindLastIf_loop this pred (i - 1) w"
      apply (subst FindLastIf_loop.simps)
      using pos x False by (simp add: bind_apply get_data_def)
    obtain r where r: "FindLastIf_loop this pred (i - 1) w = (Inr r, w)"
      "(\<exists>x \<in> set (take k ?els). pred x) \<longrightarrow>
        unat r < k \<and> pred (?els ! unat r) \<and> (\<forall>j. unat r < j \<and> j < k \<longrightarrow> \<not> pred (?els ! j))"
      "\<not> (\<exists>x \<in> set (take k ?els). pred x) \<longrightarrow> r = INDEX_NONE"
      using Suc.hyps(1) [OF pi [symmetric] le] unfolding pi by blast
    have "(\<exists>x \<in> set (take (Suc k) ?els). pred x) = (\<exists>x \<in> set (take k ?els). pred x)"
      unfolding t using False by auto
    moreover have "\<forall>j. unat r < j \<and> j < Suc k \<longrightarrow> \<not> pred (?els ! j)"
      if "\<forall>j. unat r < j \<and> j < k \<longrightarrow> \<not> pred (?els ! j)"
      using that False by (auto simp: less_Suc_eq)
    ultimately show ?thesis
      unfolding unfold ui using r by (intro exI [of _ r]) auto
  qed
qed

lemma FindLastIf_ok:
  assumes "valid w this"
  shows "\<exists>r. FindLastIf this pred w = (Inr r, w) \<and>
     ((\<exists>x \<in> set (elements w this). pred x) \<longrightarrow>
        unat r < length (elements w this) \<and> pred (elements w this ! unat r) \<and>
        (\<forall>j. unat r < j \<and> j < length (elements w this) \<longrightarrow> \<not> pred (elements w this ! j))) \<and>
     (\<not> (\<exists>x \<in> set (elements w this). pred x) \<longrightarrow> r = INDEX_NONE)"
  using FindLastIf_loop_ok [OF assms order_refl, of pred] length_elements [OF assms]
  by (simp add: FindLastIf_def bind_get_size)

lemma FindLast_ok:
  assumes "valid w this"
  shows "\<exists>r. FindLast this v w = (Inr r, w) \<and>
     (v \<in> set (elements w this) \<longrightarrow>
        unat r < length (elements w this) \<and> elements w this ! unat r = v \<and>
        (\<forall>j. unat r < j \<and> j < length (elements w this) \<longrightarrow> elements w this ! j \<noteq> v)) \<and>
     (v \<notin> set (elements w this) \<longrightarrow> r = INDEX_NONE)"
  using FindLastIf_loop_ok [OF assms order_refl, of "\<lambda>x. x = v"] length_elements [OF assms]
  by (simp add: FindLast_def bind_get_size)

lemma AddRange_ok:
  assumes "valid w this" "heap w s = Some sblk" "s < next_block w" "unat count \<le> length sblk"
    "\<forall>i < unat count. sblk ! i \<noteq> None" "m_data (objs w this) \<noteq> Ptr s 0"
    "unat (m_size (objs w this)) + unat count < 18446744073709551616"
    "m_size (objs w this) + count \<le> m_capacity (objs w this) \<or>
     allocates w (grown_capacity (m_capacity (objs w this)) (m_size (objs w this) + count))"
  shows "\<exists>w'. AddRange this (initializer_list (Ptr s 0) count) w = (Inr (), w') \<and> valid w' this \<and>
     m_size (objs w' this) = m_size (objs w this) + count \<and>
     elements w' this = elements w this @ map the (take (unat count) sblk)"
proof (cases "count = 0")
  case True
  then show ?thesis
    using assms(1) by (simp add: AddRange_def return_def)
next
  case False
  let ?sz = "m_size (objs w this)"
  let ?n = "unat ?sz"
  let ?c = "unat count"
  have cpos: "0 < ?c" using False by (simp add: unat_gt_0)
  have sum: "unat (?sz + count) = ?n + ?c"
    using assms(7) by (rule unat_add2)
  obtain w1 where w1: "ensureCapacity this (?sz + count) w = (Inr (), w1)" "valid w1 this"
      "elements w1 this = elements w this" "m_size (objs w1 this) = ?sz"
      "?sz + count \<le> m_capacity (objs w1 this)"
    using ensureCapacity_ok [OF assms(1,8)] by auto
  have hs: "heap w1 s = Some sblk"
    using ensureCapacity_frame [OF assms(1,3,6,8)] w1(1) assms(2) by simp
  have fr: "m_data (objs w1 this) \<noteq> Ptr s 0"
    using ensureCapacity_fresh [OF assms(1,3,6,8)] w1(1) by simp
  have cap: "?n + ?c \<le> unat (m_capacity (objs w1 this))"
    using w1(5) sum by (simp add: word_le_nat_alt)
  from w1(2) show ?thesis
  proof (cases rule: valid_cases)
    case empty
    then show ?thesis using cap cpos by simp
  next
    case (storage a blk)
    have ne: "s \<noteq> a" using fr storage(1) by auto
    have len: "?n + ?c \<le> length blk" using cap storage(6) by simp
    let ?blk = "take ?n blk @ take ?c sblk @ drop (?n + ?c) blk"
    let ?v = "w1\<lparr>heap := (heap w1)(a \<mapsto> ?blk),
                 objs := (objs w1)(this := (objs w1 this)\<lparr>m_size := ?sz + count\<rparr>)\<rparr>"
    have "uninitialized_move_n (Ptr s 0) ?c (Ptr a ?n) w1 =
       (Inr (), w1\<lparr>heap := (heap w1)(a \<mapsto> take ?n blk @ take ?c (drop 0 sblk) @ drop (?n + ?c) blk)\<rparr>)"
      by (rule uninitialized_move_n_ok) (use hs storage(2) ne assms(4,5) len in auto)
    then have m: "uninitialized_move_n (Ptr s 0) ?c (Ptr a ?n) w1 =
       (Inr (), w1\<lparr>heap := (heap w1)(a \<mapsto> ?blk)\<rparr>)"
      by simp
    have run: "AddRange this (initializer_list (Ptr s 0) count) w = (Inr (), ?v)"
      using False w1(1,4) storage(1) m
      by (simp add: AddRange_def uninitialized_copy_n_eq_move bind_apply field_defs ptr_add_def)
    have live: "\<forall>j < ?n. blk ! j \<noteq> None"
      using storage(7) w1(4) by simp
    have v: "valid ?v this"
    proof (rule valid_storageI [where a = a and blk = ?blk])
      show "\<forall>i < unat (m_size (objs ?v this)). ?blk ! i \<noteq> None"
        using live assms(4,5) len sum by (auto simp: nth_append)
    qed (use storage w1(5) len assms(4) in auto)
    have ew: "elements w this = map the (take ?n blk)"
      using storage(1,2) w1(3,4) by (simp add: elements_def)
    have "elements ?v this = map the (take ?n blk) @ map the (take ?c sblk)"
      using storage(1) sum len assms(4) by (simp add: elements_def)
    then have e: "elements ?v this = elements w this @ map the (take ?c sblk)"
      unfolding ew .
    show ?thesis
      using run v e by simp
  qed
qed


lemma InsertRange_ok:
  assumes "valid w this" "heap w s = Some sblk" "s < next_block w" "unat count \<le> length sblk"
    "\<forall>i < unat count. sblk ! i \<noteq> None" "m_data (objs w this) \<noteq> Ptr s 0"
    "unat (m_size (objs w this)) + unat count < 18446744073709551616"
    "m_size (objs w this) \<noteq> - 1" "index \<le> m_size (objs w this)"
    "m_size (objs w this) + count \<le> m_capacity (objs w this) \<or>
     allocates w (grown_capacity (m_capacity (objs w this)) (m_size (objs w this) + count))"
  shows "\<exists>w'. InsertRange this index (initializer_list (Ptr s 0) count) w = (Inr (), w') \<and>
     valid w' this \<and>
     m_size (objs w' this) = m_size (objs w this) + count \<and>
     elements w' this = take (unat index) (elements w this) @ map the (take (unat count) sblk) @
        drop (unat index) (elements w this)"
proof -
  let ?sz = "m_size (objs w this)"
  let ?n = "unat ?sz"
  let ?c = "unat count"
  let ?idx = "unat index"
  have suc: "unat (?sz + 1) = Suc ?n"
    using assms(8) by (rule size_t_succ)
  have le: "?idx \<le> ?n"
    using assms(9) by (simp add: word_le_nat_alt)
  have chk: "\<not> ?sz + 1 \<le> index"
    using suc le by (simp add: word_le_nat_alt)
  show ?thesis
  proof (cases "count = 0")
    case True
    then show ?thesis
      using assms(1) chk by (simp add: InsertRange_def checkRange_apply bind_apply return_def)
  next
    case False
    have cpos: "0 < ?c" using False by (simp add: unat_gt_0)
    have sum: "unat (?sz + count) = ?n + ?c"
      using assms(7) by (rule unat_add2)
    obtain w1 where w1: "ensureCapacity this (?sz + count) w = (Inr (), w1)" "valid w1 this"
        "elements w1 this = elements w this" "m_size (objs w1 this) = ?sz"
        "?sz + count \<le> m_capacity (objs w1 this)"
      using ensureCapacity_ok [OF assms(1,10)] by auto
    have hs: "heap w1 s = Some sblk"
      using ensureCapacity_frame [OF assms(1,3,6,10)] w1(1) assms(2) by simp
    have fr: "m_data (objs w1 this) \<noteq> Ptr s 0"
      using ensureCapacity_fresh [OF assms(1,3,6,10)] w1(1) by simp
    have cap: "?n + ?c \<le> unat (m_capacity (objs w1 this))"
      using w1(5) sum by (simp add: word_le_nat_alt)
    from w1(2) show ?thesis
    proof (cases rule: valid_cases)
      case empty
      then show ?thesis using cap cpos by simp
    next
      case (storage a blk)
      have ne: "s \<noteq> a" using fr storage(1) by auto
      have len: "?n + ?c \<le> length blk" using cap storage(6) by simp
      have len64: "length blk < 18446744073709551616"
        using storage(6) unsigned_less [of "m_capacity (objs w1 this)", where 'a = nat] by simp
      have live: "\<forall>j < ?n. blk ! j \<noteq> None"
        using storage(7) w1(4) by simp
      have "\<exists>blk'. shiftRight this index count w1 = (Inr (), w1\<lparr>heap := (heap w1)(a \<mapsto> blk')\<rparr>) \<and>
         length blk' = length blk \<and>
         (\<forall>j < unat index. blk' ! j = blk ! j) \<and>
         (\<forall>j. unat index \<le> j \<and> j < unat (m_size (objs w1 this)) \<longrightarrow>
            blk' ! (j + unat count) = blk ! j)"
      proof (rule shiftRight_ok)
        show "m_data (objs w1 this) = Ptr a 0" by (rule storage(1))
        show "heap w1 a = Some blk" by (rule storage(2))
        show "unat (m_size (objs w1 this)) + unat count \<le> length blk"
          using len w1(4) by simp
        show "length blk < 18446744073709551616" by (rule len64)
        show "0 < unat count" by (rule cpos)
        show "index \<le> m_size (objs w1 this)" using assms(9) w1(4) by simp
        show "\<forall>j < unat (m_size (objs w1 this)). blk ! j \<noteq> None" by (rule storage(7))
      qed
      then obtain blk' where sh:
        "shiftRight this index count w1 = (Inr (), w1\<lparr>heap := (heap w1)(a \<mapsto> blk')\<rparr>)"
        "length blk' = length blk"
        "\<forall>j < ?idx. blk' ! j = blk ! j"
        "\<forall>j. ?idx \<le> j \<and> j < ?n \<longrightarrow> blk' ! (j + ?c) = blk ! j"
        unfolding w1(4) by auto
      let ?w2 = "w1\<lparr>heap := (heap w1)(a \<mapsto> blk')\<rparr>"
      let ?blk = "take ?idx blk' @ take ?c sblk @ drop (?idx + ?c) blk'"
      let ?v = "w1\<lparr>heap := (heap w1)(a \<mapsto> ?blk),
                   objs := (objs w1)(this := (objs w1 this)\<lparr>m_size := ?sz + count\<rparr>)\<rparr>"
      have "uninitialized_move_n (Ptr s 0) ?c (Ptr a ?idx) ?w2 =
         (Inr (), ?w2\<lparr>heap := (heap ?w2)(a \<mapsto> take ?idx blk' @ take ?c (drop 0 sblk) @
            drop (?idx + ?c) blk')\<rparr>)"
        by (rule uninitialized_move_n_ok) (use hs ne assms(4,5) len le sh(2) in auto)
      then have m: "uninitialized_move_n (Ptr s 0) ?c (Ptr a ?idx) ?w2 =
         (Inr (), w1\<lparr>heap := (heap w1)(a \<mapsto> ?blk)\<rparr>)"
        by simp
      have run: "InsertRange this index (initializer_list (Ptr s 0) count) w = (Inr (), ?v)"
        using False chk w1(1,4) storage(1) sh(1) m
        by (simp add: InsertRange_def checkRange_apply uninitialized_copy_n_eq_move bind_apply
            field_defs ptr_add_def)
      have lb: "length ?blk = length blk"
        using len le sh(2) assms(4) by simp
      have nth: "?blk ! j = (if j < ?idx then blk ! j else if j < ?idx + ?c then sblk ! (j - ?idx)
          else blk ! (j - ?c))"
        if jn: "j < ?n + ?c" for j
      proof -
        consider "j < ?idx" | "?idx \<le> j" "j < ?idx + ?c" | "?idx + ?c \<le> j" by linarith
        then show ?thesis
        proof cases
          case 1
          then show ?thesis using sh(2,3) len le by (simp add: nth_append)
        next
          case 2
          then have "j - ?idx < ?c" by linarith
          with 2 show ?thesis using sh(2) len le assms(4) by (simp add: nth_append)
        next
          case 3
          then have "?idx \<le> j - ?c \<and> j - ?c < ?n" using jn by linarith
          then have "blk' ! (j - ?c + ?c) = blk ! (j - ?c)" using sh(4) by blast
          moreover have "j - ?c + ?c = j" using 3 by simp
          ultimately have b: "blk' ! j = blk ! (j - ?c)" by simp
          have a: "\<not> j < ?idx" "\<not> j - ?idx < ?c" "?idx + ?c + (j - ?idx - ?c) = j"
            using 3 by simp_all
          have "?blk ! j = blk' ! (?idx + ?c + (j - ?idx - ?c))"
            using a(1,2) sh(2) len le assms(4) jn by (simp add: nth_append min_def)
          then show ?thesis
            unfolding a(3) b using 3 by simp
        qed
      qed
      have v: "valid ?v this"
      proof (rule valid_storageI [where a = a and blk = ?blk])
        show "\<forall>i < unat (m_size (objs ?v this)). ?blk ! i \<noteq> None"
        proof (intro allI impI)
          fix i assume "i < unat (m_size (objs ?v this))"
          then have i: "i < ?n + ?c" using sum by simp
          show "?blk ! i \<noteq> None"
            unfolding nth [OF i] using live i le assms(5) by auto
        qed
        show "length ?blk = unat (m_capacity (objs ?v this))"
          using lb storage(6) by simp
      qed (use storage w1(5) in auto)
      have ew: "elements w this = map the (take ?n blk)"
        using storage(1,2) w1(3,4) by (simp add: elements_def)
      let ?els = "map the (take ?n blk)"
      have L: "length (take (?n + ?c) ?blk) = ?n + ?c"
        unfolding length_take lb using len by simp
      have "elements ?v this = map the (take (?n + ?c) ?blk)"
        using storage(1) sum by (simp add: elements_def)
      also have "\<dots> = take ?idx ?els @ map the (take ?c sblk) @ drop ?idx ?els"
      proof (rule nth_equalityI)
        show "length (map the (take (?n + ?c) ?blk)) =
            length (take ?idx ?els @ map the (take ?c sblk) @ drop ?idx ?els)"
          unfolding length_map L using len le assms(4) by simp
      next
        fix i assume "i < length (map the (take (?n + ?c) ?blk))"
        then have i: "i < ?n + ?c" unfolding length_map L .
        have il: "i < length (take (?n + ?c) ?blk)" unfolding L by (rule i)
        have "map the (take (?n + ?c) ?blk) ! i = the (take (?n + ?c) ?blk ! i)"
          using il by (rule nth_map)
        also have "take (?n + ?c) ?blk ! i = ?blk ! i"
          using i by (rule nth_take)
        also have "the (?blk ! i) = (take ?idx ?els @ map the (take ?c sblk) @ drop ?idx ?els) ! i"
          unfolding nth [OF i] using i le len assms(4) by (auto simp: nth_append min_def)
        finally show "map the (take (?n + ?c) ?blk) ! i =
            (take ?idx ?els @ map the (take ?c sblk) @ drop ?idx ?els) ! i" .
      qed
      finally have e: "elements ?v this =
          take ?idx (elements w this) @ map the (take ?c sblk) @ drop ?idx (elements w this)"
        unfolding ew .
      show ?thesis
        using run v e by simp
    qed
  qed
qed

lemma observers_apply:
  "IsEmpty this w = (Inr (m_size (objs w this) = 0), w)"
  "Size this w = (Inr (m_size (objs w this)), w)"
  "Capacity this w = (Inr (m_capacity (objs w this)), w)"
  by (simp_all add: IsEmpty_def Size_def Capacity_def bind_apply field_defs return_def)

lemma Resize_default_ok:
  assumes "valid w this"
    "n \<le> m_capacity (objs w this) \<or>
     allocates (w\<lparr>next_block := Suc (next_block w)\<rparr>) (grown_capacity (m_capacity (objs w this)) n)"
  shows "\<exists>w'. Resize_default this n T0 w = (Inr (), w') \<and> valid w' this \<and>
     m_size (objs w' this) = n \<and>
     elements w' this = take (unat n) (elements w this) @
        replicate (unat n - unat (m_size (objs w this))) T0"
proof -
  let ?nb = "next_block w"
  let ?w1 = "w\<lparr>heap := (heap w)(?nb \<mapsto> [Some T0]), next_block := Suc ?nb\<rparr>"
  have run: "Resize_default this n T0 w = Resize this n (Ptr ?nb 0) ?w1"
    by (simp add: Resize_default_def bind_apply temporary_apply)
  have v: "valid ?w1 this \<and> m_data (objs ?w1 this) \<noteq> Ptr ?nb 0 \<and>
      elements ?w1 this = elements w this"
    using assms(1)
  proof (cases rule: valid_cases)
    case empty
    then show ?thesis by (simp add: valid_def elements_def)
  next
    case (storage a blk)
    have "valid ?w1 this"
      apply (rule valid_storageI [where a = a and blk = blk])
      using storage by auto
    then show ?thesis using storage(1,2,3) by (simp add: elements_def)
  qed
  have al: "n \<le> m_capacity (objs ?w1 this) \<or>
      allocates ?w1 (grown_capacity (m_capacity (objs ?w1 this)) n)"
    using assms(2) by (auto simp: allocates_def)
  have "\<exists>w'. Resize this n (Ptr ?nb 0) ?w1 = (Inr (), w') \<and> valid w' this \<and>
     m_size (objs w' this) = n \<and>
     elements w' this = take (unat n) (elements ?w1 this) @
        replicate (unat n - unat (m_size (objs ?w1 this))) T0"
    by (rule Resize_ok [where sblk = "[Some T0]", OF _ _ _ _ _ _ al]) (use v in simp_all)
  then show ?thesis
    unfolding run using v by simp
qed

subsection \<open>The example states of the claims\<close>




lemma valid_arr_123_exhausted: "valid arr_123_exhausted 0"
  by (simp add: arr_123_exhausted_def arr_123_eq valid_def)

text \<open>In the example worlds every request below \<open>2\<^sup>6\<^sup>2\<close> elements is granted.\<close>

lemma allocates_int:
  assumes "sizeof_T w = 4" "new_fails w = (\<lambda>_ _. False)" "unat n < 4611686018427387904"
  shows "allocates w n"
  using assms by (simp add: allocates_def)

text \<open>
  The aliasing case of \<^verbatim>\<open>Insert\<close>: on \<^verbatim>\<open>arr{1, 2, 3}\<close> with capacity 10,
  \<^verbatim>\<open>arr.Insert(0, arr[2])\<close> reads its argument after the tail has been shifted, when
  the slot it refers to holds the element 2.
\<close>

lemma reserved_arr_123_eq:
  "snd (Reserve 0 10 arr_123) = \<lparr>heap = (\<lambda>_. None)(0 \<mapsto> [Some 1, Some 2, Some 3], 1 := None,
       2 \<mapsto> [Some 1, Some 2, Some 3, None, None, None, None, None, None, None]),
     next_block = 3,
     objs = (\<lambda>_. \<lparr>m_data = nullptr, m_size = 0, m_capacity = 0\<rparr>)
              (0 := \<lparr>m_data = Ptr 2 0, m_size = 3, m_capacity = 10\<rparr>),
     sizeof_T = 4, new_fails = (\<lambda>_ _. False)\<rparr>"
  by (simp add: Reserve_apply reallocate_def replaceStorage_def arr_123_eq exec_defs numeral_loops
      replicate_numeral min_def word_le_nat_alt word_less_nat_alt fun_upd_twist)

lemma Insert_of_own_element:
  "fst (subscript 0 2 (snd (Reserve 0 10 arr_123))) = Inr (Ptr 2 2) \<and>
   fst (Insert 0 0 (Ptr 2 2) (snd (Reserve 0 10 arr_123))) = Inr () \<and>
   elements (snd (Insert 0 0 (Ptr 2 2) (snd (Reserve 0 10 arr_123)))) 0 = [2, 1, 2, 3]"
  unfolding reserved_arr_123_eq
  by (simp add: Insert_def EmplaceAt_def ensureCapacity_apply checkRange_apply subscript_apply
      shiftRight_def shiftRight_loop.simps elements_def exec_defs word_le_nat_alt word_less_nat_alt)

text \<open>
  The byte count of \<^verbatim>\<open>allocate\<close> wraps: for \<^verbatim>\<open>int\<close> elements \<^verbatim>\<open>Reserve(2^62)\<close> asks
  \<^verbatim>\<open>::operator new\<close> for 0 bytes, and the three elements of \<^verbatim>\<open>arr{1, 2, 3}\<close> are then
  moved into a block that has no room for them.
\<close>

lemma Reserve_byte_count_wraps:
  "(4611686018427387904 :: size_t) * sizeof_T arr_123 = 0 \<and>
   fst (Reserve 0 4611686018427387904 arr_123) = Inl undefined_behaviour"
  by (simp add: Reserve_apply reallocate_def arr_123_eq exec_defs numeral_loops min_def
      word_le_nat_alt word_less_nat_alt)

section \<open>The claims of the specification\<close>




text \<open>
  C2 (as stated, refuted). \<^verbatim>\<open>Reserve\<close> calls \<^verbatim>\<open>reallocate(newCapacity)\<close> directly and not
  \<^verbatim>\<open>ensureCapacity\<close>: on a container of capacity 10, \<^verbatim>\<open>Reserve(11)\<close> leaves capacity 11,
  not \<open>max(11, 10 + 10/2) = 15\<close>.
\<close>

theorem Reserve_growth_counterexample:
  "m_capacity (objs (snd (Reserve 0 11 reserved_10)) 0) \<noteq>
   max 11 (m_capacity (objs reserved_10 0) + m_capacity (objs reserved_10 0) div 2)"
proof -
  have c: "m_capacity (objs reserved_10 0) = 10"
    by (simp add: reserved_10_eq)
  have "allocates reserved_10 11"
    by (rule allocates_int) (simp_all add: reserved_10_eq)
  then obtain w' where "reallocate 0 11 reserved_10 = (Inr (), w')" "m_capacity (objs w' 0) = 11"
    using reallocate_grow [OF valid_reserved_10, of 11] c by auto
  then show ?thesis
    using c by (simp add: Reserve_apply)
qed

text \<open>
  C2 (amended). On a valid container of capacity \<open>c\<close>, \<^verbatim>\<open>Reserve(n)\<close> with \<open>n \<le> c\<close>
  changes nothing. With \<open>n > c\<close> it asks for storage for exactly \<open>n\<close> elements: when
  \<^verbatim>\<open>::operator new\<close> refuses, \<^verbatim>\<open>std::bad_alloc\<close> leaves \<^verbatim>\<open>Reserve\<close> and nothing has
  changed; when the storage is allocated (the byte count \<^verbatim>\<open>n * sizeof(T)\<close> does not wrap
  and \<^verbatim>\<open>::operator new\<close> grants it), \<^verbatim>\<open>Reserve\<close> returns, the container is valid with
  the same elements, and the capacity is exactly \<open>n\<close>. So the capacity never shrinks,
  and it is at least \<open>n\<close> whenever \<^verbatim>\<open>Reserve\<close> returns. The growth rule belongs to
  \<^verbatim>\<open>ensureCapacity(n)\<close>, used by the insertions and by \<^verbatim>\<open>Resize\<close>: when \<open>n > c\<close> it
  reallocates to \<open>max(n, min(SIZE_MAX, c + c/2))\<close>, under the same two conditions.
\<close>

theorem Reserve_capacity:
  assumes "valid w this"
  shows "(n \<le> m_capacity (objs w this) \<longrightarrow> Reserve this n w = (Inr (), w)) \<and>
     (m_capacity (objs w this) < n \<and> new_fails w (next_block w) (n * sizeof_T w) \<longrightarrow>
        Reserve this n w = (Inl bad_alloc, w)) \<and>
     (m_capacity (objs w this) < n \<and> allocates w n \<longrightarrow>
        (\<exists>w'. Reserve this n w = (Inr (), w') \<and> valid w' this \<and>
           elements w' this = elements w this \<and>
           m_size (objs w' this) = m_size (objs w this) \<and>
           m_capacity (objs w' this) = n \<and>
           m_capacity (objs w this) \<le> m_capacity (objs w' this))) \<and>
     (n \<le> m_capacity (objs w this) \<or>
      allocates w (grown_capacity (m_capacity (objs w this)) n) \<longrightarrow>
        (\<exists>w'. ensureCapacity this n w = (Inr (), w') \<and> valid w' this \<and>
           elements w' this = elements w this \<and>
           n \<le> m_capacity (objs w' this) \<and>
           unat (m_capacity (objs w' this)) =
             (if n \<le> m_capacity (objs w this) then unat (m_capacity (objs w this))
              else max (unat n) (min 18446744073709551615
                     (unat (m_capacity (objs w this)) + unat (m_capacity (objs w this)) div 2)))))"
proof -
  have noop: "n \<le> m_capacity (objs w this) \<longrightarrow> Reserve this n w = (Inr (), w)"
    by (simp add: Reserve_apply)
  have refused: "m_capacity (objs w this) < n \<and> new_fails w (next_block w) (n * sizeof_T w) \<longrightarrow>
        Reserve this n w = (Inl bad_alloc, w)"
  proof
    assume a: "m_capacity (objs w this) < n \<and> new_fails w (next_block w) (n * sizeof_T w)"
    then have "n \<noteq> 0" by auto
    then have "reallocate this n w = (Inl bad_alloc, w)"
      using a by (simp add: reallocate_bad_alloc)
    then show "Reserve this n w = (Inl bad_alloc, w)"
      using a by (simp add: Reserve_apply not_le [symmetric])
  qed
  have grows: "m_capacity (objs w this) < n \<and> allocates w n \<longrightarrow>
        (\<exists>w'. Reserve this n w = (Inr (), w') \<and> valid w' this \<and>
           elements w' this = elements w this \<and>
           m_size (objs w' this) = m_size (objs w this) \<and>
           m_capacity (objs w' this) = n \<and>
           m_capacity (objs w this) \<le> m_capacity (objs w' this))"
  proof
    assume a: "m_capacity (objs w this) < n \<and> allocates w n"
    then have lt: "m_capacity (objs w this) < n" and al: "allocates w n" by simp_all
    from reallocate_grow [OF assms lt al]
    show "\<exists>w'. Reserve this n w = (Inr (), w') \<and> valid w' this \<and>
           elements w' this = elements w this \<and>
           m_size (objs w' this) = m_size (objs w this) \<and>
           m_capacity (objs w' this) = n \<and>
           m_capacity (objs w this) \<le> m_capacity (objs w' this)"
      using lt by (auto simp: Reserve_apply not_le [symmetric])
  qed
  have rule: "n \<le> m_capacity (objs w this) \<or>
      allocates w (grown_capacity (m_capacity (objs w this)) n) \<longrightarrow>
        (\<exists>w'. ensureCapacity this n w = (Inr (), w') \<and> valid w' this \<and>
           elements w' this = elements w this \<and>
           n \<le> m_capacity (objs w' this) \<and>
           unat (m_capacity (objs w' this)) =
             (if n \<le> m_capacity (objs w this) then unat (m_capacity (objs w this))
              else max (unat n) (min 18446744073709551615
                     (unat (m_capacity (objs w this)) + unat (m_capacity (objs w this)) div 2))))"
  proof
    assume a: "n \<le> m_capacity (objs w this) \<or>
      allocates w (grown_capacity (m_capacity (objs w this)) n)"
    from ensureCapacity_ok [OF assms a]
    show "\<exists>w'. ensureCapacity this n w = (Inr (), w') \<and> valid w' this \<and>
           elements w' this = elements w this \<and>
           n \<le> m_capacity (objs w' this) \<and>
           unat (m_capacity (objs w' this)) =
             (if n \<le> m_capacity (objs w this) then unat (m_capacity (objs w this))
              else max (unat n) (min 18446744073709551615
                     (unat (m_capacity (objs w this)) + unat (m_capacity (objs w this)) div 2)))"
      by blast
  qed
  show ?thesis
    using noop refused grows rule by (intro conjI)
qed

text \<open>
  The witness: \<^verbatim>\<open>Reserve(5)\<close> and \<^verbatim>\<open>Reserve(2)\<close> on \<^verbatim>\<open>arr{1, 2, 3}\<close>, \<^verbatim>\<open>Reserve(5)\<close> when
  \<^verbatim>\<open>::operator new\<close> refuses, and \<^verbatim>\<open>ensureCapacity\<close> on a container of capacity 10.
\<close>

theorem Reserve_capacity_witness:
  "(\<exists>w'. Reserve 0 5 arr_123 = (Inr (), w') \<and> valid w' 0 \<and> elements w' 0 = [1, 2, 3] \<and>
      m_capacity (objs w' 0) = 5) \<and>
   Reserve 0 2 arr_123 = (Inr (), arr_123) \<and>
   Reserve 0 5 arr_123_exhausted = (Inl bad_alloc, arr_123_exhausted) \<and>
   (\<exists>w'. ensureCapacity 0 4 reserved_10 = (Inr (), w') \<and> unat (m_capacity (objs w' 0)) = 10) \<and>
   (\<exists>w'. ensureCapacity 0 11 reserved_10 = (Inr (), w') \<and> unat (m_capacity (objs w' 0)) = 15)"
proof -
  have c: "m_capacity (objs arr_123 0) = 3" "m_capacity (objs reserved_10 0) = 10"
    "m_capacity (objs arr_123_exhausted 0) = 3"
    by (simp_all add: arr_123_eq reserved_10_eq arr_123_exhausted_def)
  have f: "new_fails arr_123_exhausted (next_block arr_123_exhausted) (5 * sizeof_T arr_123_exhausted)"
    by (simp add: arr_123_exhausted_def)
  have a5: "allocates arr_123 5"
    by (rule allocates_int) (simp_all add: arr_123_eq)
  have "unat (grown_capacity 10 11) = 15"
    by (simp add: grown_capacity_formula)
  then have a15: "allocates reserved_10 (grown_capacity (m_capacity (objs reserved_10 0)) 11)"
    unfolding c by (intro allocates_int) (simp_all add: reserved_10_eq)
  show ?thesis
    using Reserve_capacity [OF valid_arr_123, of 5] Reserve_capacity [OF valid_arr_123, of 2]
      Reserve_capacity [OF valid_arr_123_exhausted, of 5]
      Reserve_capacity [OF valid_reserved_10, of 4] Reserve_capacity [OF valid_reserved_10, of 11]
      c f a5 a15 elements_arr_123
    by auto
qed

text \<open>
  C3. Indexed access \<^verbatim>\<open>c[i]\<close> throws \<^verbatim>\<open>std::out_of_range\<close> exactly when
  \<open>i \<ge> Size()\<close>, on every container (empty ones included); it never changes the
  world; and for \<open>i < Size()\<close> it returns the reference to slot \<open>i\<close> of the storage,
  which in a valid container holds the element at logical index \<open>i\<close>.
\<close>

theorem subscript_contract:
  "(fst (subscript this i w) = Inl out_of_range \<longleftrightarrow> m_size (objs w this) \<le> i) \<and>
   snd (subscript this i w) = w \<and>
   (i < m_size (objs w this) \<longrightarrow>
      fst (subscript this i w) = Inr (ptr_add (m_data (objs w this)) i) \<and>
      (valid w this \<longrightarrow>
         load (ptr_add (m_data (objs w this)) i) w = (Inr (elements w this ! unat i), w)))"
  by (auto simp: subscript_apply load_element)

theorem subscript_contract_witness:
  "fst (subscript 0 1 arr_123) = Inr (Ptr 1 1) \<and>
   load (Ptr 1 1) arr_123 = (Inr 2, arr_123) \<and>
   fst (subscript 0 3 arr_123) = Inl out_of_range \<and>
   snd (subscript 0 3 arr_123) = arr_123"
proof -
  have a: "(1::size_t) < m_size (objs arr_123 0)" "m_data (objs arr_123 0) = Ptr 1 0"
    "m_size (objs arr_123 0) \<le> 3"
    by (simp_all add: arr_123_eq)
  show ?thesis
    using subscript_contract [of 0 1 arr_123] subscript_contract [of 0 3 arr_123]
      a valid_arr_123 elements_arr_123
    by (simp add: ptr_add_def)
qed

text \<open>
  C4 (failing input). On \<^verbatim>\<open>DynamicArray<int> arr{1, 2, 3}\<close> the call
  \<^verbatim>\<open>arr.RemoveRange(1, SIZE_MAX)\<close> has a valid index and an over-long count, so it should
  remove the elements from index 1 to the end. But the clamping test
  \<^verbatim>\<open>index + count > m_size\<close> is computed in \<^verbatim>\<open>std::size_t\<close>: the sum wraps to 0, the
  count is not clamped, and \<^verbatim>\<open>std::destroy_n\<close> runs past the end of the storage.
\<close>

theorem RemoveRange_overflow_failing_input:
  "(1::size_t) < m_size (objs arr_123 0) \<and>
   (1::size_t) + (- 1) = 0 \<and>
   fst (RemoveRange 0 1 (- 1) arr_123) = Inl undefined_behaviour"
proof -
  have h: "heap arr_123 1 = Some [Some 1, Some 2, Some 3]"
    by (simp add: arr_123_eq)
  have "fst (destroy_n (Ptr 1 1) (unat (- 1 :: size_t)) arr_123) = Inl undefined_behaviour"
    by (rule destroy_n_past_end [OF h]) (auto simp: unat_max nth_Cons')
  then have "fst (bind (destroy_n (Ptr 1 1) (unat (- 1 :: size_t))) (\<lambda>_.
       bind (shiftLeft 0 1 (- 1)) (\<lambda>_.
       bind (get_size 0) (\<lambda>sz'. set_size 0 (sz' - (- 1))))) arr_123) = Inl undefined_behaviour"
    by (rule bind_fails)
  moreover have "m_data (objs arr_123 0) = Ptr 1 0" "m_size (objs arr_123 0) = 3"
    by (simp_all add: arr_123_eq)
  ultimately show ?thesis
    by (simp add: RemoveRange_def bind_checkRange bind_get_size bind_get_data ptr_add_def Let_def
        word_le_nat_alt word_less_nat_alt)
qed

text \<open>
  C5 (as stated, refuted). \<^verbatim>\<open>Data()\<close> returns \<^verbatim>\<open>m_data\<close> whatever the size is, and
  \<^verbatim>\<open>Clear()\<close> keeps the storage: after \<^verbatim>\<open>DynamicArray<int> arr{1, 2, 3}; arr.Clear();\<close>
  the size is 0 and \<^verbatim>\<open>Data()\<close> is the storage start, not the null pointer. The same
  holds after \<^verbatim>\<open>Reserve(10)\<close> on an empty container.
\<close>

theorem Data_empty_counterexample:
  "m_size (objs (snd (Clear 0 arr_123)) 0) = 0 \<and>
   fst (Data 0 (snd (Clear 0 arr_123))) = Inr (Ptr 1 0) \<and>
   m_size (objs (snd (Reserve 0 10 world0)) 0) = 0 \<and>
   fst (Data 0 (snd (Reserve 0 10 world0))) = Inr (Ptr 0 0)"
proof -
  obtain w' where "Clear 0 arr_123 = (Inr (), w')"
      "objs w' 0 = (objs arr_123 0)\<lparr>m_size := 0\<rparr>"
    using Clear_ok [OF valid_arr_123] by auto
  moreover have "m_data (objs arr_123 0) = Ptr 1 0"
    by (simp add: arr_123_eq)
  moreover have "objs reserved_10 0 = \<lparr>m_data = Ptr 0 0, m_size = 0, m_capacity = 10\<rparr>"
    by (simp add: reserved_10_eq)
  ultimately show ?thesis
    by (simp add: Data_apply reserved_10_def)
qed

text \<open>
  C5 (amended). On a valid container \<^verbatim>\<open>Data()\<close> returns \<^verbatim>\<open>m_data\<close> and changes nothing.
  It is the null pointer exactly when \<open>Capacity() = 0\<close>; in particular \<^verbatim>\<open>Clear()\<close>
  leaves \<^verbatim>\<open>Data()\<close> as it was, and after a \<^verbatim>\<open>Reserve(n)\<close> that grows the capacity and
  whose storage is allocated, \<^verbatim>\<open>Data()\<close> is the start of the new block, which has \<open>n\<close>
  slots. For every \<open>i < Size()\<close> the element \<open>i\<close> can
  be read through \<^verbatim>\<open>Data() + i\<close>, and a value written through it is the one that
  \<^verbatim>\<open>operator[]\<close> then refers to, the other elements being unchanged.
\<close>

theorem Data_storage_start:
  assumes "valid w this"
  shows "Data this w = (Inr (m_data (objs w this)), w) \<and>
     (m_data (objs w this) = nullptr \<longleftrightarrow> m_capacity (objs w this) = 0) \<and>
     (\<exists>w'. Clear this w = (Inr (), w') \<and> m_size (objs w' this) = 0 \<and>
        Data this w' = (Inr (m_data (objs w this)), w')) \<and>
     (m_capacity (objs w this) < n \<and> allocates w n \<longrightarrow>
        (\<exists>w' blk. Reserve this n w = (Inr (), w') \<and>
           Data this w' = (Inr (Ptr (next_block w) 0), w') \<and>
           heap w' (next_block w) = Some blk \<and> length blk = unat n)) \<and>
     (i < m_size (objs w this) \<longrightarrow>
        load (ptr_add (m_data (objs w this)) i) w = (Inr (elements w this ! unat i), w) \<and>
        (\<exists>w'. store (ptr_add (m_data (objs w this)) i) v w = (Inr (), w') \<and> valid w' this \<and>
           elements w' this = (elements w this)[unat i := v] \<and>
           (\<exists>p. subscript this i w' = (Inr p, w') \<and> load p w' = (Inr v, w'))))"
proof (intro conjI impI)
  show "Data this w = (Inr (m_data (objs w this)), w)"
    by (rule Data_apply)
  show "m_data (objs w this) = nullptr \<longleftrightarrow> m_capacity (objs w this) = 0"
    using assms by (rule valid_null_iff)
  show "\<exists>w'. Clear this w = (Inr (), w') \<and> m_size (objs w' this) = 0 \<and>
        Data this w' = (Inr (m_data (objs w this)), w')"
    using Clear_ok [OF assms] by (auto simp: Data_apply)
next
  assume a: "m_capacity (objs w this) < n \<and> allocates w n"
  then have lt: "m_capacity (objs w this) < n" and al: "allocates w n" by simp_all
  obtain w' where w': "reallocate this n w = (Inr (), w')" "valid w' this"
      "m_data (objs w' this) = Ptr (next_block w) 0" "m_capacity (objs w' this) = n"
    using reallocate_grow [OF assms lt al] by blast
  from w'(2) obtain blk where "heap w' (next_block w) = Some blk" "length blk = unat n"
    using w'(3,4) by (cases rule: valid_cases) auto
  then show "\<exists>w' blk. Reserve this n w = (Inr (), w') \<and>
           Data this w' = (Inr (Ptr (next_block w) 0), w') \<and>
           heap w' (next_block w) = Some blk \<and> length blk = unat n"
    using w' lt by (auto simp: Reserve_apply Data_apply not_le [symmetric])
next
  assume lt: "i < m_size (objs w this)"
  show "load (ptr_add (m_data (objs w this)) i) w = (Inr (elements w this ! unat i), w)"
    using assms lt by (rule load_element)
  obtain w' where w': "store (ptr_add (m_data (objs w this)) i) v w = (Inr (), w')"
      "valid w' this" "objs w' = objs w" "elements w' this = (elements w this)[unat i := v]"
    using store_element [OF assms lt, of v] by auto
  have "unat i < length (elements w this)"
    using assms lt by (simp add: length_elements word_less_nat_alt)
  then have "elements w' this ! unat i = v"
    using w'(4) by simp
  moreover have "load (ptr_add (m_data (objs w' this)) i) w' = (Inr (elements w' this ! unat i), w')"
    using w'(2) lt w'(3) by (intro load_element) simp_all
  ultimately have "subscript this i w' = (Inr (ptr_add (m_data (objs w this)) i), w') \<and>
      load (ptr_add (m_data (objs w this)) i) w' = (Inr v, w')"
    using lt w'(3) by (simp add: subscript_apply)
  then show "\<exists>w'. store (ptr_add (m_data (objs w this)) i) v w = (Inr (), w') \<and> valid w' this \<and>
           elements w' this = (elements w this)[unat i := v] \<and>
           (\<exists>p. subscript this i w' = (Inr p, w') \<and> load p w' = (Inr v, w'))"
    using w' by blast
qed

text \<open>The witness follows \<^verbatim>\<open>TestElementAccess\<close>: a write through \<^verbatim>\<open>Data()\<close> is seen by \<^verbatim>\<open>operator[]\<close>.\<close>

theorem Data_storage_start_witness:
  "Data 0 arr_123 = (Inr (Ptr 1 0), arr_123) \<and>
   load (Ptr 1 2) arr_123 = (Inr 3, arr_123) \<and>
   (\<exists>w'. store (Ptr 1 2) 50 arr_123 = (Inr (), w') \<and> elements w' 0 = [1, 2, 50] \<and>
      (\<exists>p. subscript 0 2 w' = (Inr p, w') \<and> load p w' = (Inr 50, w'))) \<and>
   (\<exists>w' blk. Reserve 0 4 arr_123 = (Inr (), w') \<and> Data 0 w' = (Inr (Ptr 2 0), w') \<and>
      heap w' 2 = Some blk \<and> length blk = 4)"
proof -
  have a: "m_data (objs arr_123 0) = Ptr 1 0" "(2::size_t) < m_size (objs arr_123 0)"
     "m_capacity (objs arr_123 0) < 4" "next_block arr_123 = 2"
    by (simp_all add: arr_123_eq)
  have al: "allocates arr_123 4"
    by (rule allocates_int) (simp_all add: arr_123_eq)
  have p: "ptr_add (m_data (objs arr_123 0)) 2 = Ptr 1 2"
    by (simp add: arr_123_eq ptr_add_def)
  have e: "(elements arr_123 0)[unat (2::size_t) := 50] = [1, 2, 50]"
     "elements arr_123 0 ! unat (2::size_t) = 3"
    by (simp_all add: elements_arr_123)
  note t = Data_storage_start [OF valid_arr_123, of 4 2 50, unfolded p e]
  show ?thesis
    using t a al by auto
qed

text \<open>
  C6. On a valid container \<^verbatim>\<open>RemoveAll(pred)\<close> returns; afterwards the container is
  valid and holds exactly the elements for which \<open>pred\<close> is false, in their original
  order (the old sequence filtered by not-\<open>pred\<close>); the value returned is the number of
  elements for which \<open>pred\<close> was true; capacity and storage block are unchanged.
\<close>

theorem RemoveAll_stable_compaction:
  assumes "valid w this"
  shows "\<exists>r w'. RemoveAll this pred w = (Inr r, w') \<and> valid w' this \<and>
     elements w' this = filter (\<lambda>x. \<not> pred x) (elements w this) \<and>
     unat r = length (filter pred (elements w this)) \<and>
     m_capacity (objs w' this) = m_capacity (objs w this) \<and>
     m_data (objs w' this) = m_data (objs w this)"
  using assms by (rule RemoveAll_ok)

text \<open>The witness is the specification's example: \<open>{1,2,3,4,5}\<close> and \<open>v > 2\<close>.\<close>

theorem RemoveAll_stable_compaction_witness:
  "\<exists>w'. RemoveAll 0 (\<lambda>v. v > 2) arr_12345 = (Inr 3, w') \<and> valid w' 0 \<and>
     elements w' 0 = [1, 2] \<and> m_capacity (objs w' 0) = 5"
proof -
  have c: "m_capacity (objs arr_12345 0) = 5"
    by (simp add: arr_12345_eq)
  obtain r w' where r: "RemoveAll 0 (\<lambda>v. v > 2) arr_12345 = (Inr r, w')" "valid w' 0"
     "elements w' 0 = [1, 2]" "unat r = 3" "m_capacity (objs w' 0) = 5"
    using RemoveAll_stable_compaction [OF valid_arr_12345, of "\<lambda>v. v > 2"] c
    by (auto simp: elements_arr_12345)
  have "r = 3"
    using r(4) by (simp add: word_unat_eq_iff)
  then show ?thesis using r by auto
qed

text \<open>
  C7. Let \<open>a\<close> and \<open>b\<close> be two distinct valid containers that own different blocks.
  After the move assignment \<^verbatim>\<open>b = std::move(a)\<close>, and likewise after the move construction
  of \<open>b\<close> from \<open>a\<close>, \<open>b\<close> has \<open>a\<close>'s prior fields and so holds exactly \<open>a\<close>'s prior
  sequence, and \<open>a\<close> is the valid empty state: size 0, capacity 0 and \<^verbatim>\<open>Data()\<close> null.
  Move assignment and copy assignment of a container to itself change nothing.
\<close>

theorem move_validity:
  assumes "valid w a" "valid w b" "a \<noteq> b" "separate w a b"
  shows "(\<exists>w'. move_assign b a w = (Inr (), w') \<and>
        elements w' b = elements w a \<and> m_size (objs w' b) = m_size (objs w a) \<and>
        valid w' b \<and> valid w' a \<and>
        m_size (objs w' a) = 0 \<and> m_capacity (objs w' a) = 0 \<and> Data a w' = (Inr nullptr, w')) \<and>
     (\<exists>w'. DynamicArray_move b a w = (Inr (), w') \<and>
        elements w' b = elements w a \<and> m_size (objs w' b) = m_size (objs w a) \<and>
        valid w' b \<and> valid w' a \<and>
        m_size (objs w' a) = 0 \<and> m_capacity (objs w' a) = 0 \<and> Data a w' = (Inr nullptr, w')) \<and>
     move_assign a a w = (Inr (), w) \<and> copy_assign a a w = (Inr (), w)"
proof (intro conjI)
  show "\<exists>w'. move_assign b a w = (Inr (), w') \<and>
        elements w' b = elements w a \<and> m_size (objs w' b) = m_size (objs w a) \<and>
        valid w' b \<and> valid w' a \<and>
        m_size (objs w' a) = 0 \<and> m_capacity (objs w' a) = 0 \<and> Data a w' = (Inr nullptr, w')"
    using move_assign_ok [OF assms] by (auto simp: Data_apply)
next
  let ?v = "w\<lparr>objs := (objs w)(a := \<lparr>m_data = nullptr, m_size = 0, m_capacity = 0\<rparr>, b := objs w a)\<rparr>"
  have run: "DynamicArray_move b a w = (Inr (), ?v)"
    using assms(3) by (rule DynamicArray_move_apply)
  have o: "objs ?v b = objs w a" "heap ?v = heap w" "next_block ?v = next_block w"
    by simp_all
  have "elements ?v b = elements w a"
    by (rule elements_transfer) (simp_all add: o)
  moreover have "valid ?v b"
    using valid_transfer [of ?v b w a] o assms(1) by simp
  moreover have "valid ?v a"
    using assms(3) by (intro valid_emptyI) simp
  ultimately show "\<exists>w'. DynamicArray_move b a w = (Inr (), w') \<and>
        elements w' b = elements w a \<and> m_size (objs w' b) = m_size (objs w a) \<and>
        valid w' b \<and> valid w' a \<and>
        m_size (objs w' a) = 0 \<and> m_capacity (objs w' a) = 0 \<and> Data a w' = (Inr nullptr, w')"
    using run assms(3) by (simp add: Data_apply)
next
  show "move_assign a a w = (Inr (), w)" by (rule move_assign_self)
  show "copy_assign a a w = (Inr (), w)" by (rule copy_assign_self)
qed

text \<open>The witness moves \<^verbatim>\<open>a{1, 2, 3}\<close> into \<^verbatim>\<open>d{1, 2}\<close>.\<close>

theorem move_validity_witness:
  "(\<exists>w'. move_assign 2 0 test_arrays = (Inr (), w') \<and> elements w' 2 = [1, 2, 3] \<and>
      m_size (objs w' 2) = 3 \<and> m_size (objs w' 0) = 0 \<and> m_capacity (objs w' 0) = 0 \<and>
      Data 0 w' = (Inr nullptr, w')) \<and>
   (\<exists>w'. DynamicArray_move 2 0 test_arrays = (Inr (), w') \<and> elements w' 2 = [1, 2, 3] \<and>
      Data 0 w' = (Inr nullptr, w')) \<and>
   move_assign 0 0 test_arrays = (Inr (), test_arrays) \<and>
   copy_assign 0 0 test_arrays = (Inr (), test_arrays)"
proof -
  have s: "separate test_arrays 0 2" "(0::nat) \<noteq> 2" "m_size (objs test_arrays 0) = 3"
    by (simp_all add: separate_def test_arrays_eq)
  show ?thesis
    using move_validity [OF valid_test_arrays(1) valid_test_arrays(3) s(2) s(1)]
      elements_test_arrays(1) s(3)
    by auto
qed

text \<open>
  C8. On two valid containers, \<^verbatim>\<open>a <=> b\<close> returns, changes nothing, and is the
  lexicographic comparison of the two sequences: if the sequences agree on every index
  below the smaller size, the result is the comparison of the sizes (shorter is less,
  equal sizes are equal); otherwise the first index at which they differ decides.
  \<^verbatim>\<open>a == b\<close> returns whether the two sequences are equal, that is, whether the sizes are
  equal and the elements are pairwise equal in order.
\<close>

theorem comparison_lexicographic:
  fixes w :: "('a::linorder) world"
  assumes "valid w a" "valid w b"
  shows "operator_spaceship a b w =
       (Inr (lexicographic_compare (elements w a) (elements w b)), w) \<and>
     ((\<forall>k < min (length (elements w a)) (length (elements w b)).
          elements w a ! k = elements w b ! k) \<longrightarrow>
        fst (operator_spaceship a b w) =
          Inr (three_way (length (elements w a)) (length (elements w b)))) \<and>
     (\<forall>k < min (length (elements w a)) (length (elements w b)).
        (\<forall>j < k. elements w a ! j = elements w b ! j) \<longrightarrow>
        elements w a ! k \<noteq> elements w b ! k \<longrightarrow>
        fst (operator_spaceship a b w) = Inr (three_way (elements w a ! k) (elements w b ! k))) \<and>
     operator_eq a b w = (Inr (elements w a = elements w b), w) \<and>
     (fst (operator_eq a b w) = Inr True \<longleftrightarrow>
        m_size (objs w a) = m_size (objs w b) \<and>
        (\<forall>k < unat (m_size (objs w a)). elements w a ! k = elements w b ! k))"
proof -
  have s: "operator_spaceship a b w =
       (Inr (lexicographic_compare (elements w a) (elements w b)), w)"
    using assms by (rule operator_spaceship_ok)
  have e: "operator_eq a b w = (Inr (elements w a = elements w b), w)"
    using assms by (rule operator_eq_ok)
  have la: "length (elements w a) = unat (m_size (objs w a))"
    and lb: "length (elements w b) = unat (m_size (objs w b))"
    using assms by (simp_all add: length_elements)
  have "elements w a = elements w b \<longleftrightarrow>
      m_size (objs w a) = m_size (objs w b) \<and>
      (\<forall>k < unat (m_size (objs w a)). elements w a ! k = elements w b ! k)"
    using la lb by (auto simp: list_eq_iff_nth_eq word_unat_eq_iff)
  then show ?thesis
    using s e
    by (simp add: lexicographic_compare_prefix lexicographic_compare_first_difference)
qed

theorem comparison_lexicographic_witness:
  "operator_spaceship 0 1 test_arrays = (Inr Less, test_arrays) \<and>
   operator_spaceship 1 0 test_arrays = (Inr Greater, test_arrays) \<and>
   operator_spaceship 0 2 test_arrays = (Inr Greater, test_arrays) \<and>
   operator_spaceship 2 0 test_arrays = (Inr Less, test_arrays) \<and>
   operator_spaceship 0 0 test_arrays = (Inr Equal, test_arrays) \<and>
   operator_spaceship 3 4 test_arrays = (Inr Equal, test_arrays) \<and>
   operator_eq 0 0 test_arrays = (Inr True, test_arrays) \<and>
   operator_eq 0 1 test_arrays = (Inr False, test_arrays) \<and>
   operator_eq 0 2 test_arrays = (Inr False, test_arrays) \<and>
   operator_eq 3 4 test_arrays = (Inr True, test_arrays)"
proof -
  have v4: "valid test_arrays 4" "elements test_arrays 4 = []"
    by (simp_all add: test_arrays_eq valid_def elements_def)
  note v = valid_test_arrays v4(1)
  have e: "elements test_arrays (Suc 0) = [1, 2, 4]"
    using elements_test_arrays(2) by simp
  note t = comparison_lexicographic [OF v(1) v(2)] comparison_lexicographic [OF v(2) v(1)]
      comparison_lexicographic [OF v(1) v(3)] comparison_lexicographic [OF v(3) v(1)]
      comparison_lexicographic [OF v(1) v(1)] comparison_lexicographic [OF v(4) v(5)]
  show ?thesis
    using t [THEN conjunct1] t [THEN conjunct2, THEN conjunct2, THEN conjunct2, THEN conjunct1]
    by (simp add: elements_test_arrays e v4(2) three_way_def)
qed

text \<open>
  C9 (failing input). The same wrap-around breaks the size-capacity invariant. On the
  valid container \<^verbatim>\<open>arr{1, 2, 3}\<close> (capacity 3), \<^verbatim>\<open>arr.RemoveRange(2, SIZE_MAX)\<close> passes the
  index check, does not clamp the count (\<open>2 + SIZE_MAX\<close> wraps to 1), runs
  \<^verbatim>\<open>std::destroy_n\<close> past the end of the storage, and the size it goes on to store,
  \<^verbatim>\<open>m_size - count\<close>, is 4, which exceeds the capacity.
\<close>

theorem RemoveRange_breaks_invariant_failing_input:
  "valid arr_123 0 \<and>
   (2::size_t) < m_size (objs arr_123 0) \<and>
   \<not> (2::size_t) + (- 1) > m_size (objs arr_123 0) \<and>
   fst (RemoveRange 0 2 (- 1) arr_123) = Inl undefined_behaviour \<and>
   m_size (objs arr_123 0) - (- 1) = 4 \<and>
   \<not> m_size (objs arr_123 0) - (- 1) \<le> m_capacity (objs arr_123 0)"
proof -
  have h: "heap arr_123 1 = Some [Some 1, Some 2, Some 3]"
    by (simp add: arr_123_eq)
  have f: "m_data (objs arr_123 0) = Ptr 1 0" "m_size (objs arr_123 0) = 3"
     "m_capacity (objs arr_123 0) = 3"
    by (simp_all add: arr_123_eq)
  have "fst (destroy_n (Ptr 1 (0 + unat (2::size_t))) (unat (- 1 :: size_t)) arr_123) =
      Inl undefined_behaviour"
    by (rule destroy_n_past_end [OF h]) (auto simp: unat_max nth_Cons')
  then have "fst (destroy_n (ptr_add (Ptr 1 0) 2) (unat (- 1 :: size_t)) arr_123) =
      Inl undefined_behaviour"
    unfolding ptr_add_def pointer.case .
  then have u: "fst (bind (destroy_n (ptr_add (Ptr 1 0) 2) (unat (- 1 :: size_t))) (\<lambda>_.
       bind (shiftLeft 0 2 (- 1)) (\<lambda>_.
       bind (get_size 0) (\<lambda>sz'. set_size 0 (sz' - (- 1))))) arr_123) = Inl undefined_behaviour"
    by (rule bind_fails)
  have "RemoveRange 0 2 (- 1) arr_123 =
      bind (destroy_n (ptr_add (Ptr 1 0) 2) (unat (- 1 :: size_t))) (\<lambda>_.
       bind (shiftLeft 0 2 (- 1)) (\<lambda>_.
       bind (get_size 0) (\<lambda>sz'. set_size 0 (sz' - (- 1))))) arr_123"
    by (simp add: RemoveRange_def bind_checkRange bind_get_size bind_get_data Let_def f
        word_le_nat_alt word_less_nat_alt)
  then have "fst (RemoveRange 0 2 (- 1) arr_123) = Inl undefined_behaviour"
    using u by simp
  then show ?thesis
    using valid_arr_123 f by (simp add: word_le_nat_alt word_less_nat_alt)
qed

text \<open>
  C10. \<^verbatim>\<open>a.Swap(b)\<close> never fails and exchanges the three fields of the two objects, the
  free store being untouched: afterwards \<open>a\<close> holds \<open>b\<close>'s prior sequence and capacity
  and \<open>b\<close> holds \<open>a\<close>'s, validity is exchanged with them, and a second \<^verbatim>\<open>a.Swap(b)\<close>
  restores the world. This also holds when \<open>a\<close> and \<open>b\<close> are the same object.
\<close>

theorem Swap_exchanges:
  "\<exists>w'. Swap a b w = (Inr (), w') \<and>
     objs w' a = objs w b \<and> objs w' b = objs w a \<and> heap w' = heap w \<and>
     elements w' a = elements w b \<and> elements w' b = elements w a \<and>
     m_capacity (objs w' a) = m_capacity (objs w b) \<and>
     m_capacity (objs w' b) = m_capacity (objs w a) \<and>
     valid w' a = valid w b \<and> valid w' b = valid w a \<and>
     Swap a b w' = (Inr (), w)"
proof -
  let ?v = "w\<lparr>objs := (objs w)(a := objs w b, b := objs w a)\<rparr>"
  have o: "objs ?v a = objs w b" "objs ?v b = objs w a" "heap ?v = heap w"
    "next_block ?v = next_block w"
    by simp_all
  have twice: "?v\<lparr>objs := (objs ?v)(a := objs ?v b, b := objs ?v a)\<rparr> = w"
    by (cases "a = b") (simp_all add: fun_upd_twist)
  have "Swap a b ?v = (Inr (), w)"
    unfolding Swap_apply [of a b ?v] twice ..
  moreover have "elements ?v a = elements w b" "elements ?v b = elements w a"
    by (rule elements_transfer; simp)+
  moreover have "valid ?v a = valid w b" "valid ?v b = valid w a"
    by (rule valid_transfer; simp)+
  ultimately show ?thesis
    unfolding Swap_apply [of a b w]
    using o by simp
qed

end
